theory Spec2Isabelle
  imports Main "HOL-Library.Word" "HOL-Library.Multiset"
begin

unbundle bit_operations_syntax

section \<open>Common vocabulary of the typesafe containers (typesafe.h, typesafe.c)\<close>

text \<open>
  The containers are intrusive: the linkage lives inside the user's element. An element is
  identified by its address; a C pointer to an element is an \<open>item option\<close>, with
  \<open>None\<close> for \<open>NULL\<close>. \<open>container_of\<close> only converts between the address of the
  link field and the address of the element and is the identity here.

  \<open>size_t\<close> is taken as 64 bits wide (LP64), \<open>uint32_t\<close> as \<open>32 word\<close>; both wrap.
  A comparison function returns a C \<open>int\<close>, of which only the sign is inspected.
\<close>

type_synonym item = nat

text \<open>What a C program does on undefined behaviour is not modelled further: the operation
  stops with a fault.\<close>

datatype fault = NullDeref | OutOfBounds | CtzOfZero | BadFree

text \<open>A \<open>struct xxx_item **\<close>: the address of a location holding a next pointer, either
  the \<open>first\<close> field of the head or the \<open>next\<close> field of an element.\<close>

datatype slot = HeadFirst | ItemNext item

section \<open>Single-linked list, unsorted (TYPEDLIST)\<close>

text \<open>\<open>struct slist_head\<close> together with the \<open>si.next\<close> field of every element.\<close>

record slist =
  sl_first :: "item option"
  sl_last_next :: slot
  sl_count :: "64 word"
  sl_next :: "item \<Rightarrow> item option"

definition sl_read :: "slist \<Rightarrow> slot \<Rightarrow> item option" where
  "sl_read h p = (case p of HeadFirst \<Rightarrow> sl_first h | ItemNext a \<Rightarrow> sl_next h a)"

definition sl_write :: "slist \<Rightarrow> slot \<Rightarrow> item option \<Rightarrow> slist" where
  "sl_write h p v =
     (case p of HeadFirst \<Rightarrow> h\<lparr>sl_first := v\<rparr>
              | ItemNext a \<Rightarrow> h\<lparr>sl_next := (sl_next h)(a := v)\<rparr>)"

definition slist_init :: "slist \<Rightarrow> slist" where
  "slist_init h = h\<lparr>sl_first := None, sl_last_next := HeadFirst, sl_count := 0\<rparr>"

definition slist_add_head :: "slist \<Rightarrow> item \<Rightarrow> slist" where
  "slist_add_head h item =
     (let h1 = h\<lparr>sl_next := (sl_next h)(item := sl_first h)\<rparr>;
          h2 = h1\<lparr>sl_first := Some item\<rparr>;
          h3 = (if sl_last_next h2 = HeadFirst
                then h2\<lparr>sl_last_next := ItemNext item\<rparr> else h2)
      in h3\<lparr>sl_count := sl_count h3 + 1\<rparr>)"

definition slist_add_tail :: "slist \<Rightarrow> item \<Rightarrow> slist" where
  "slist_add_tail h item =
     (let h1 = h\<lparr>sl_next := (sl_next h)(item := None)\<rparr>;
          h2 = sl_write h1 (sl_last_next h1) (Some item);
          h3 = h2\<lparr>sl_last_next := ItemNext item\<rparr>
      in h3\<lparr>sl_count := sl_count h3 + 1\<rparr>)"

text \<open>
  \<open>nextp = after ? &h->sh.first : &after->field.si.next;\<close>
  The conditional selects the head's \<open>first\<close> field when \<open>after\<close> is non-null, and the
  \<open>next\<close> field of \<open>after\<close> when \<open>after\<close> is null; the latter is then dereferenced.
\<close>

definition slist_add_after :: "slist \<Rightarrow> item option \<Rightarrow> item \<Rightarrow> fault + slist" where
  "slist_add_after h after item =
     (case (case after of Some a \<Rightarrow> Inr HeadFirst | None \<Rightarrow> Inl NullDeref) of
        Inl e \<Rightarrow> Inl e
      | Inr nextp \<Rightarrow>
          (let h1 = h\<lparr>sl_next := (sl_next h)(item := sl_read h nextp)\<rparr>;
               h2 = sl_write h1 nextp (Some item);
               h3 = (if sl_last_next h2 = nextp
                     then h2\<lparr>sl_last_next := ItemNext item\<rparr> else h2)
           in Inr (h3\<lparr>sl_count := sl_count h3 + 1\<rparr>)))"

text \<open>\<open>while (*iter && *iter != &item->field.si) iter = &(*iter)->next;\<close>\<close>

partial_function (option) slist_del_scan :: "slist \<Rightarrow> item \<Rightarrow> slot \<Rightarrow> slot option" where
  "slist_del_scan h item iter =
     (case sl_read h iter of
        None \<Rightarrow> Some iter
      | Some p \<Rightarrow> if p \<noteq> item then slist_del_scan h item (ItemNext p) else Some iter)"

definition slist_del :: "slist \<Rightarrow> item \<Rightarrow> slist option" where
  "slist_del h item =
     (case slist_del_scan h item HeadFirst of
        None \<Rightarrow> None
      | Some iter \<Rightarrow>
          (case sl_read h iter of
             None \<Rightarrow> Some h
           | Some p \<Rightarrow>
               (let h1 = h\<lparr>sl_count := sl_count h - 1\<rparr>;
                    h2 = sl_write h1 iter (sl_next h1 item)
                in Some (if sl_next h2 item = None
                         then h2\<lparr>sl_last_next := iter\<rparr> else h2))))"

definition slist_pop :: "slist \<Rightarrow> item option \<times> slist" where
  "slist_pop h =
     (case sl_first h of
        None \<Rightarrow> (None, h)
      | Some sitem \<Rightarrow>
          (let h1 = h\<lparr>sl_count := sl_count h - 1\<rparr>;
               h2 = h1\<lparr>sl_first := sl_next h1 sitem\<rparr>;
               h3 = (if sl_first h2 = None
                     then h2\<lparr>sl_last_next := HeadFirst\<rparr> else h2)
           in (Some sitem, h3)))"

definition slist_first :: "slist \<Rightarrow> item option" where
  "slist_first h = sl_first h"

definition slist_next :: "slist \<Rightarrow> item \<Rightarrow> item option" where
  "slist_next h item = sl_next h item"

definition slist_next_safe :: "slist \<Rightarrow> item option \<Rightarrow> item option" where
  "slist_next_safe h item = (case item of None \<Rightarrow> None | Some a \<Rightarrow> sl_next h a)"

definition slist_count :: "slist \<Rightarrow> 64 word" where
  "slist_count h = sl_count h"


text \<open>\<open>for_each\<close>: \<open>for (item = first(head); item; item = next(head, item))\<close>, collecting the
  elements visited.\<close>

partial_function (option) slist_walk :: "slist \<Rightarrow> item option \<Rightarrow> item list option" where
  "slist_walk h p =
     (case p of
        None \<Rightarrow> Some []
      | Some a \<Rightarrow> Option.bind (slist_walk h (slist_next h a)) (\<lambda>r. Some (a # r)))"

definition slist_for_each :: "slist \<Rightarrow> item list option" where
  "slist_for_each h = slist_walk h (slist_first h)"

text \<open>Calling \<open>pop\<close> \<open>n\<close> times, collecting what each call returns.\<close>

fun slist_pop_n :: "nat \<Rightarrow> slist \<Rightarrow> item option list \<times> slist" where
  "slist_pop_n 0 h = ([], h)"
| "slist_pop_n (Suc n) h =
     (case slist_pop h of (r, h') \<Rightarrow>
        (case slist_pop_n n h' of (rs, h'') \<Rightarrow> (r # rs, h'')))"

section \<open>Single-linked list, sorted (TYPEDSORT)\<close>

text \<open>\<open>struct ssort_head\<close> together with the \<open>si.next\<close> field of every element. The
  comparison function of the instantiation is the parameter \<open>cmpfn\<close>.\<close>

record ssort =
  ss_first :: "item option"
  ss_count :: "64 word"
  ss_next :: "item \<Rightarrow> item option"

definition ss_read :: "ssort \<Rightarrow> slot \<Rightarrow> item option" where
  "ss_read h p = (case p of HeadFirst \<Rightarrow> ss_first h | ItemNext a \<Rightarrow> ss_next h a)"

definition ss_write :: "ssort \<Rightarrow> slot \<Rightarrow> item option \<Rightarrow> ssort" where
  "ss_write h p v =
     (case p of HeadFirst \<Rightarrow> h\<lparr>ss_first := v\<rparr>
              | ItemNext a \<Rightarrow> h\<lparr>ss_next := (ss_next h)(a := v)\<rparr>)"

definition ssort_init :: "ssort \<Rightarrow> ssort" where
  "ssort_init h = h\<lparr>ss_first := None, ss_count := 0\<rparr>"

text \<open>\<open>while (*np && cmpfn(container_of(*np), item) < 0) np = &(*np)->next;\<close>\<close>

partial_function (option) ssort_add_scan ::
  "(item \<Rightarrow> item \<Rightarrow> int) \<Rightarrow> ssort \<Rightarrow> item \<Rightarrow> slot \<Rightarrow> slot option" where
  "ssort_add_scan cmpfn h item np =
     (case ss_read h np of
        None \<Rightarrow> Some np
      | Some p \<Rightarrow>
          if cmpfn p item < 0 then ssort_add_scan cmpfn h item (ItemNext p) else Some np)"

text \<open>\<open>add\<close> is declared \<open>void\<close>: the only result is the updated container.\<close>

definition ssort_add :: "(item \<Rightarrow> item \<Rightarrow> int) \<Rightarrow> ssort \<Rightarrow> item \<Rightarrow> ssort option" where
  "ssort_add cmpfn h item =
     (case ssort_add_scan cmpfn h item HeadFirst of
        None \<Rightarrow> None
      | Some np \<Rightarrow>
          (let h1 = h\<lparr>ss_next := (ss_next h)(item := ss_read h np)\<rparr>;
               h2 = ss_write h1 np (Some item)
           in Some (h2\<lparr>ss_count := ss_count h2 + 1\<rparr>)))"

text \<open>
  \<open>while (sitem && (cmpval = cmpfn(container_of(sitem), item) < 0)) sitem = sitem->next;\<close>
  The relational operator binds tighter than the assignment: \<open>cmpval\<close> receives the value of
  the comparison \<open>cmpfn(...) < 0\<close>, that is 1 or 0 (\<open>c_less_zero\<close>). The loop returns \<open>sitem\<close> and, when
  \<open>sitem\<close> is non-null, the last value assigned to \<open>cmpval\<close>.
\<close>

definition c_less_zero :: "int \<Rightarrow> int" where
  "c_less_zero x = (if x < 0 then 1 else 0)"

partial_function (option) ssort_find_scan ::
  "(item \<Rightarrow> item \<Rightarrow> int) \<Rightarrow> ssort \<Rightarrow> item option \<Rightarrow> item \<Rightarrow> (item \<times> int) option option" where
  "ssort_find_scan cmpfn h sitem item =
     (case sitem of
        None \<Rightarrow> Some None
      | Some p \<Rightarrow>
          if c_less_zero (cmpfn p item) \<noteq> 0
          then ssort_find_scan cmpfn h (ss_next h p) item
          else Some (Some (p, c_less_zero (cmpfn p item))))"

text \<open>\<open>if (!sitem || cmpval > 0) return NULL; return container_of(sitem);\<close>\<close>

definition ssort_find :: "(item \<Rightarrow> item \<Rightarrow> int) \<Rightarrow> ssort \<Rightarrow> item \<Rightarrow> item option option" where
  "ssort_find cmpfn h item =
     (case ssort_find_scan cmpfn h (ss_first h) item of
        None \<Rightarrow> None
      | Some None \<Rightarrow> Some None
      | Some (Some (p, cmpval)) \<Rightarrow> if cmpval > 0 then Some None else Some (Some p))"

partial_function (option) ssort_del_scan :: "ssort \<Rightarrow> item \<Rightarrow> slot \<Rightarrow> slot option" where
  "ssort_del_scan h item iter =
     (case ss_read h iter of
        None \<Rightarrow> Some iter
      | Some p \<Rightarrow> if p \<noteq> item then ssort_del_scan h item (ItemNext p) else Some iter)"

definition ssort_del :: "ssort \<Rightarrow> item \<Rightarrow> ssort option" where
  "ssort_del h item =
     (case ssort_del_scan h item HeadFirst of
        None \<Rightarrow> None
      | Some iter \<Rightarrow>
          (case ss_read h iter of
             None \<Rightarrow> Some h
           | Some p \<Rightarrow>
               (let h1 = h\<lparr>ss_count := ss_count h - 1\<rparr>
                in Some (ss_write h1 iter (ss_next h1 item)))))"

definition ssort_pop :: "ssort \<Rightarrow> item option \<times> ssort" where
  "ssort_pop h =
     (case ss_first h of
        None \<Rightarrow> (None, h)
      | Some sitem \<Rightarrow>
          (let h1 = h\<lparr>ss_count := ss_count h - 1\<rparr>
           in (Some sitem, h1\<lparr>ss_first := ss_next h1 sitem\<rparr>)))"

definition ssort_first :: "ssort \<Rightarrow> item option" where
  "ssort_first h = ss_first h"

definition ssort_next :: "ssort \<Rightarrow> item \<Rightarrow> item option" where
  "ssort_next h item = ss_next h item"

definition ssort_next_safe :: "ssort \<Rightarrow> item option \<Rightarrow> item option" where
  "ssort_next_safe h item = (case item of None \<Rightarrow> None | Some a \<Rightarrow> ss_next h a)"

definition ssort_count :: "ssort \<Rightarrow> 64 word" where
  "ssort_count h = ss_count h"

partial_function (option) ssort_walk :: "ssort \<Rightarrow> item option \<Rightarrow> item list option" where
  "ssort_walk h p =
     (case p of
        None \<Rightarrow> Some []
      | Some a \<Rightarrow> Option.bind (ssort_walk h (ssort_next h a)) (\<lambda>r. Some (a # r)))"

definition ssort_for_each :: "ssort \<Rightarrow> item list option" where
  "ssort_for_each h = ssort_walk h (ssort_first h)"

section \<open>Hash table (TYPEDHASH)\<close>

text \<open>
  \<open>struct thash_head\<close> together with the \<open>hi.next\<close> and \<open>hi.hashval\<close> fields of every
  element. \<open>th_entries\<close> is the memory block \<open>entries\<close> points to (\<open>[]\<close> for \<open>NULL\<close>);
  an access outside the block is a fault. The hash and comparison functions of the
  instantiation are the parameters \<open>hashfn\<close> and \<open>cmpfn\<close>.
\<close>

record thash =
  th_entries :: "item option list"
  th_tabsize :: "32 word"
  th_count :: "32 word"
  th_maxsize :: "32 word"
  th_minsize :: "32 word"
  th_next :: "item \<Rightarrow> item option"
  th_hashval :: "item \<Rightarrow> 32 word"

text \<open>A \<open>struct thash_item **\<close>: the address of \<open>entries[i]\<close> or of an element's \<open>next\<close>.\<close>

datatype hslot = Bucket nat | HNext item

definition th_read :: "thash \<Rightarrow> hslot \<Rightarrow> fault + item option" where
  "th_read h p =
     (case p of
        Bucket i \<Rightarrow> if i < length (th_entries h) then Inr (th_entries h ! i) else Inl OutOfBounds
      | HNext a \<Rightarrow> Inr (th_next h a))"

definition th_write :: "thash \<Rightarrow> hslot \<Rightarrow> item option \<Rightarrow> fault + thash" where
  "th_write h p v =
     (case p of
        Bucket i \<Rightarrow> if i < length (th_entries h)
                    then Inr (h\<lparr>th_entries := (th_entries h)[i := v]\<rparr>) else Inl OutOfBounds
      | HNext a \<Rightarrow> Inr (h\<lparr>th_next := (th_next h)(a := v)\<rparr>))"

text \<open>\<open>XREALLOC\<close> to \<open>n\<close> cells: the common prefix is kept. Cells the block did not have
  before hold unspecified values in C; they are shown as \<open>None\<close>.\<close>

definition xrealloc :: "item option list \<Rightarrow> nat \<Rightarrow> item option list" where
  "xrealloc es n = take n es @ replicate (n - length es) None"

definition thash_init :: "thash \<Rightarrow> thash" where
  "thash_init h =
     h\<lparr>th_entries := [], th_tabsize := 0, th_count := 0, th_maxsize := 0, th_minsize := 0\<rparr>"

definition HASH_GROW_THRESHOLD :: "thash \<Rightarrow> bool" where
  "HASH_GROW_THRESHOLD head \<longleftrightarrow> th_count head \<ge> th_tabsize head"

definition HASH_SHRINK_THRESHOLD :: "thash \<Rightarrow> bool" where
  "HASH_SHRINK_THRESHOLD head \<longleftrightarrow> th_count head \<le> (th_tabsize head - 1) div 2"

text \<open>The size computation shared by \<open>typesafe_hash_grow\<close> and \<open>typesafe_hash_shrink\<close>:
  \<open>newsize |= newsize >> 1; ... newsize |= newsize >> 16; newsize++;\<close>\<close>

definition hash_newsize :: "32 word \<Rightarrow> 32 word" where
  "hash_newsize cnt =
     (let n0 = cnt;
          n1 = n0 OR drop_bit 1 n0;
          n2 = n1 OR drop_bit 2 n1;
          n3 = n2 OR drop_bit 4 n2;
          n4 = n3 OR drop_bit 8 n3;
          n5 = n4 OR drop_bit 16 n4
      in n5 + 1)"

text \<open>The inner loop of \<open>typesafe_hash_grow\<close> over the chain of one old bucket:
  \<open>while ((item = *apos)) { if ((item->hashval & (newsize - 1)) >= j) { *apos = NULL;
  head->entries[j] = item; j += head->tabsize; } apos = &item->next; }\<close>\<close>

partial_function (option) grow_chain ::
  "32 word \<Rightarrow> thash \<Rightarrow> hslot \<Rightarrow> 32 word \<Rightarrow> (fault + thash) option" where
  "grow_chain newsize h apos j =
     (case th_read h apos of
        Inl e \<Rightarrow> Some (Inl e)
      | Inr None \<Rightarrow> Some (Inr h)
      | Inr (Some item) \<Rightarrow>
          if (th_hashval h item AND (newsize - 1)) \<ge> j
          then (case th_write h apos None of
                  Inl e \<Rightarrow> Some (Inl e)
                | Inr h1 \<Rightarrow>
                    (case th_write h1 (Bucket (unat j)) (Some item) of
                       Inl e \<Rightarrow> Some (Inl e)
                     | Inr h2 \<Rightarrow> grow_chain newsize h2 (HNext item) (j + th_tabsize h2)))
          else grow_chain newsize h (HNext item) j)"

text \<open>\<open>for (i = 0; i < head->tabsize; i++) { apos = &head->entries[i]; j = i + head->tabsize;
  ... }\<close>, over the indices still to visit.\<close>

fun grow_buckets :: "32 word \<Rightarrow> nat list \<Rightarrow> thash \<Rightarrow> (fault + thash) option" where
  "grow_buckets newsize [] h = Some (Inr h)"
| "grow_buckets newsize (i # is) h =
     (case grow_chain newsize h (Bucket i) (of_nat i + th_tabsize h) of
        None \<Rightarrow> None
      | Some (Inl e) \<Rightarrow> Some (Inl e)
      | Some (Inr h') \<Rightarrow> grow_buckets newsize is h')"

text \<open>The \<open>memset\<close> clears the cells from \<open>tabsize\<close> up to \<open>newsize\<close>; with
  \<open>newsize < tabsize\<close> its length wraps around and it leaves the block.\<close>

definition typesafe_hash_grow :: "thash \<Rightarrow> (fault + thash) option" where
  "typesafe_hash_grow head =
     (let newsize0 = hash_newsize (th_count head);
          newsize = (if th_maxsize head \<noteq> 0 \<and> newsize0 > th_maxsize head
                     then th_maxsize head else newsize0)
      in if newsize = th_tabsize head then Some (Inr head)
         else if newsize < th_tabsize head then Some (Inl OutOfBounds)
         else
           (let es = xrealloc (th_entries head) (unat newsize);
                es' = take (unat (th_tabsize head)) es
                        @ replicate (unat newsize - unat (th_tabsize head)) None
            in case grow_buckets newsize [0..<unat (th_tabsize head)]
                      (head\<lparr>th_entries := es'\<rparr>) of
                 None \<Rightarrow> None
               | Some (Inl e) \<Rightarrow> Some (Inl e)
               | Some (Inr h') \<Rightarrow> Some (Inr (h'\<lparr>th_tabsize := newsize\<rparr>))))"

text \<open>\<open>while (*apos) apos = &(*apos)->next;\<close>\<close>

partial_function (option) chain_end :: "thash \<Rightarrow> hslot \<Rightarrow> (fault + hslot) option" where
  "chain_end h apos =
     (case th_read h apos of
        Inl e \<Rightarrow> Some (Inl e)
      | Inr None \<Rightarrow> Some (Inr apos)
      | Inr (Some p) \<Rightarrow> chain_end h (HNext p))"

text \<open>\<open>for (j = i + newsize; j < head->tabsize; j += newsize) { while (*apos) ...;
  *apos = head->entries[j]; }\<close>\<close>

partial_function (option) shrink_fold ::
  "32 word \<Rightarrow> thash \<Rightarrow> hslot \<Rightarrow> 32 word \<Rightarrow> (fault + thash) option" where
  "shrink_fold newsize h apos j =
     (if j < th_tabsize h
      then (case chain_end h apos of
              None \<Rightarrow> None
            | Some (Inl e) \<Rightarrow> Some (Inl e)
            | Some (Inr apos') \<Rightarrow>
                (case th_read h (Bucket (unat j)) of
                   Inl e \<Rightarrow> Some (Inl e)
                 | Inr v \<Rightarrow>
                     (case th_write h apos' v of
                        Inl e \<Rightarrow> Some (Inl e)
                      | Inr h1 \<Rightarrow> shrink_fold newsize h1 apos' (j + newsize))))
      else Some (Inr h))"

fun shrink_buckets :: "32 word \<Rightarrow> nat list \<Rightarrow> thash \<Rightarrow> (fault + thash) option" where
  "shrink_buckets newsize [] h = Some (Inr h)"
| "shrink_buckets newsize (i # is) h =
     (case shrink_fold newsize h (Bucket i) (of_nat i + newsize) of
        None \<Rightarrow> None
      | Some (Inl e) \<Rightarrow> Some (Inl e)
      | Some (Inr h') \<Rightarrow> shrink_buckets newsize is h')"

definition typesafe_hash_shrink :: "thash \<Rightarrow> (fault + thash) option" where
  "typesafe_hash_shrink head =
     (if th_count head = 0
      then Some (Inr (head\<lparr>th_entries := [], th_tabsize := 0\<rparr>))
      else
        (let newsize0 = hash_newsize (th_count head);
             newsize = (if th_minsize head \<noteq> 0 \<and> newsize0 < th_minsize head
                        then th_minsize head else newsize0)
         in if newsize = th_tabsize head then Some (Inr head)
            else
              (case shrink_buckets newsize [0..<unat newsize] head of
                 None \<Rightarrow> None
               | Some (Inl e) \<Rightarrow> Some (Inl e)
               | Some (Inr h') \<Rightarrow>
                   Some (Inr (h'\<lparr>th_entries := xrealloc (th_entries h') (unat newsize),
                                  th_tabsize := newsize\<rparr>)))))"

text \<open>\<open>while (*np && (*np)->hashval < hval) np = &(*np)->next;\<close>\<close>

partial_function (option) thash_scan_less ::
  "thash \<Rightarrow> 32 word \<Rightarrow> hslot \<Rightarrow> (fault + hslot) option" where
  "thash_scan_less h hval np =
     (case th_read h np of
        Inl e \<Rightarrow> Some (Inl e)
      | Inr None \<Rightarrow> Some (Inr np)
      | Inr (Some p) \<Rightarrow>
          if th_hashval h p < hval then thash_scan_less h hval (HNext p) else Some (Inr np))"

text \<open>\<open>add\<close> is declared \<open>void\<close>: the only result is the updated container.\<close>

definition thash_add :: "(item \<Rightarrow> 32 word) \<Rightarrow> thash \<Rightarrow> item \<Rightarrow> (fault + thash) option" where
  "thash_add hashfn h item =
     (let h1 = h\<lparr>th_count := th_count h + 1\<rparr>
      in case (if th_tabsize h1 = 0 \<or> HASH_GROW_THRESHOLD h1
               then typesafe_hash_grow h1 else Some (Inr h1)) of
           None \<Rightarrow> None
         | Some (Inl e) \<Rightarrow> Some (Inl e)
         | Some (Inr h2) \<Rightarrow>
             (let hval = hashfn item;
                  hbits = hval AND (th_tabsize h2 - 1);
                  h3 = h2\<lparr>th_hashval := (th_hashval h2)(item := hval)\<rparr>
              in case thash_scan_less h3 hval (Bucket (unat hbits)) of
                   None \<Rightarrow> None
                 | Some (Inl e) \<Rightarrow> Some (Inl e)
                 | Some (Inr np) \<Rightarrow>
                     (case th_read h3 np of
                        Inl e \<Rightarrow> Some (Inl e)
                      | Inr v \<Rightarrow>
                          Some (th_write (h3\<lparr>th_next := (th_next h3)(item := v)\<rparr>)
                                  np (Some item)))))"

text \<open>\<open>while (hitem && hitem->hashval < hval) hitem = hitem->next;\<close>\<close>

partial_function (option) thash_find_skip ::
  "thash \<Rightarrow> 32 word \<Rightarrow> item option \<Rightarrow> item option option" where
  "thash_find_skip h hval hitem =
     (case hitem of
        None \<Rightarrow> Some None
      | Some p \<Rightarrow>
          if th_hashval h p < hval then thash_find_skip h hval (th_next h p) else Some (Some p))"

text \<open>\<open>while (hitem && hitem->hashval == hval) { if (!cmpfn(container_of(hitem), item))
  return container_of(hitem); hitem = hitem->next; } return NULL;\<close>\<close>

partial_function (option) thash_find_run ::
  "(item \<Rightarrow> item \<Rightarrow> int) \<Rightarrow> thash \<Rightarrow> item option \<Rightarrow> 32 word \<Rightarrow> item \<Rightarrow> item option option" where
  "thash_find_run cmpfn h hitem hval item =
     (case hitem of
        None \<Rightarrow> Some None
      | Some p \<Rightarrow>
          if th_hashval h p = hval
          then (if cmpfn p item = 0 then Some (Some p)
                else thash_find_run cmpfn h (th_next h p) hval item)
          else Some None)"

definition thash_find ::
  "(item \<Rightarrow> item \<Rightarrow> int) \<Rightarrow> (item \<Rightarrow> 32 word) \<Rightarrow> thash \<Rightarrow> item \<Rightarrow> (fault + item option) option" where
  "thash_find cmpfn hashfn h item =
     (if th_tabsize h = 0 then Some (Inr None)
      else
        (let hval = hashfn item;
             hbits = hval AND (th_tabsize h - 1)
         in case th_read h (Bucket (unat hbits)) of
              Inl e \<Rightarrow> Some (Inl e)
            | Inr hitem \<Rightarrow>
                (case thash_find_skip h hval hitem of
                   None \<Rightarrow> None
                 | Some hitem' \<Rightarrow>
                     (case thash_find_run cmpfn h hitem' hval item of
                        None \<Rightarrow> None
                      | Some r \<Rightarrow> Some (Inr r)))))"

text \<open>\<open>while (*np && *np != &item->field.hi && (*np)->hashval == hval) np = &(*np)->next;\<close>\<close>

partial_function (option) thash_del_scan ::
  "thash \<Rightarrow> 32 word \<Rightarrow> item \<Rightarrow> hslot \<Rightarrow> (fault + hslot) option" where
  "thash_del_scan h hval item np =
     (case th_read h np of
        Inl e \<Rightarrow> Some (Inl e)
      | Inr None \<Rightarrow> Some (Inr np)
      | Inr (Some p) \<Rightarrow>
          if p \<noteq> item \<and> th_hashval h p = hval
          then thash_del_scan h hval item (HNext p) else Some (Inr np))"

definition thash_del :: "(item \<Rightarrow> 32 word) \<Rightarrow> thash \<Rightarrow> item \<Rightarrow> (fault + thash) option" where
  "thash_del hashfn h item =
     (if th_tabsize h = 0 then Some (Inr h)
      else
        (let hval = hashfn item;
             hbits = hval AND (th_tabsize h - 1)
         in case thash_scan_less h hval (Bucket (unat hbits)) of
              None \<Rightarrow> None
            | Some (Inl e) \<Rightarrow> Some (Inl e)
            | Some (Inr np0) \<Rightarrow>
                (case thash_del_scan h hval item np0 of
                   None \<Rightarrow> None
                 | Some (Inl e) \<Rightarrow> Some (Inl e)
                 | Some (Inr np) \<Rightarrow>
                     (case th_read h np of
                        Inl e \<Rightarrow> Some (Inl e)
                      | Inr v \<Rightarrow>
                          if v \<noteq> Some item then Some (Inr h)
                          else
                            (case th_write h np (th_next h item) of
                               Inl e \<Rightarrow> Some (Inl e)
                             | Inr h1 \<Rightarrow>
                                 (let h2 = h1\<lparr>th_next := (th_next h1)(item := None)\<rparr>;
                                      h3 = h2\<lparr>th_count := th_count h2 - 1\<rparr>
                                  in if HASH_SHRINK_THRESHOLD h3
                                     then typesafe_hash_shrink h3 else Some (Inr h3)))))))"

text \<open>\<open>for (i = ...; i < h->hh.tabsize; i++) if (h->hh.entries[i]) ...\<close>: the first
  non-empty bucket among the indices still to visit, with its first element.\<close>

fun thash_first_bucket :: "thash \<Rightarrow> nat list \<Rightarrow> fault + (nat \<times> item) option" where
  "thash_first_bucket h [] = Inr None"
| "thash_first_bucket h (i # is) =
     (case th_read h (Bucket i) of
        Inl e \<Rightarrow> Inl e
      | Inr None \<Rightarrow> thash_first_bucket h is
      | Inr (Some hitem) \<Rightarrow> Inr (Some (i, hitem)))"

definition thash_pop :: "thash \<Rightarrow> (fault + item option \<times> thash) option" where
  "thash_pop h =
     (case thash_first_bucket h [0..<unat (th_tabsize h)] of
        Inl e \<Rightarrow> Some (Inl e)
      | Inr None \<Rightarrow> Some (Inr (None, h))
      | Inr (Some (i, hitem)) \<Rightarrow>
          (let h1 = h\<lparr>th_entries := (th_entries h)[i := th_next h hitem]\<rparr>;
               h2 = h1\<lparr>th_count := th_count h1 - 1\<rparr>;
               h3 = h2\<lparr>th_next := (th_next h2)(hitem := None)\<rparr>
           in case (if HASH_SHRINK_THRESHOLD h3
                    then typesafe_hash_shrink h3 else Some (Inr h3)) of
                None \<Rightarrow> None
              | Some (Inl e) \<Rightarrow> Some (Inl e)
              | Some (Inr h4) \<Rightarrow> Some (Inr (Some hitem, h4))))"

definition thash_first :: "thash \<Rightarrow> fault + item option" where
  "thash_first h =
     (case thash_first_bucket h [0..<unat (th_tabsize h)] of
        Inl e \<Rightarrow> Inl e
      | Inr None \<Rightarrow> Inr None
      | Inr (Some (i, hitem)) \<Rightarrow> Inr (Some hitem))"

definition thash_next :: "thash \<Rightarrow> item \<Rightarrow> fault + item option" where
  "thash_next h item =
     (case th_next h item of
        Some n \<Rightarrow> Inr (Some n)
      | None \<Rightarrow>
          (let i = (th_hashval h item AND (th_tabsize h - 1)) + 1
           in case thash_first_bucket h [unat i..<unat (th_tabsize h)] of
                Inl e \<Rightarrow> Inl e
              | Inr None \<Rightarrow> Inr None
              | Inr (Some (k, hitem)) \<Rightarrow> Inr (Some hitem)))"

definition thash_next_safe :: "thash \<Rightarrow> item option \<Rightarrow> fault + item option" where
  "thash_next_safe h item = (case item of None \<Rightarrow> Inr None | Some a \<Rightarrow> thash_next h a)"

definition thash_count :: "thash \<Rightarrow> 64 word" where
  "thash_count h = ucast (th_count h)"

section \<open>Skip list (TYPEDSKIP)\<close>

definition SKIPLIST_MAXDEPTH :: nat where "SKIPLIST_MAXDEPTH = 16"
definition SKIPLIST_EMBED :: nat where "SKIPLIST_EMBED = 4"
definition SKIPLIST_OVERFLOW :: nat where "SKIPLIST_OVERFLOW = SKIPLIST_EMBED - 1"

text \<open>
  A \<open>struct sskip_item *\<close> that is dereferenced is either \<open>&head->hitem\<close> or an element.
  A \<open>struct sskip_overflow *\<close> is either \<open>head->overflow\<close> or a block obtained from
  \<open>XMALLOC\<close>. The cell \<open>next[SKIPLIST_OVERFLOW]\<close> holds either a plain element pointer or
  the address of an overflow block with the lowest bit set.
\<close>

datatype node = Hd | It item
datatype oref = HeadOflow | Block nat
datatype sptr = Plain "item option" | Tagged oref

text \<open>
  \<open>struct sskip_head\<close> and the link fields of every element: \<open>sk_next n l\<close> is
  \<open>next[l]\<close> for \<open>l < SKIPLIST_OVERFLOW\<close>, \<open>sk_next3 n\<close> is \<open>next[SKIPLIST_OVERFLOW]\<close>,
  \<open>sk_oflow b k\<close> is cell \<open>k\<close> of overflow block \<open>b\<close>, and \<open>sk_blocks\<close> lists the
  blocks allocated and not yet freed with their number of cells.
\<close>

record sskip =
  sk_next :: "node \<Rightarrow> nat \<Rightarrow> item option"
  sk_next3 :: "node \<Rightarrow> sptr"
  sk_oflow :: "oref \<Rightarrow> nat \<Rightarrow> item option"
  sk_blocks :: "(nat \<times> nat) list"
  sk_count :: "64 word"

definition oflow_cells :: "sskip \<Rightarrow> oref \<Rightarrow> nat" where
  "oflow_cells s b =
     (case b of
        HeadOflow \<Rightarrow> SKIPLIST_MAXDEPTH - SKIPLIST_OVERFLOW
      | Block k \<Rightarrow> (case map_of (sk_blocks s) k of None \<Rightarrow> 0 | Some n \<Rightarrow> n))"

definition sl_level_get :: "sskip \<Rightarrow> node \<Rightarrow> nat \<Rightarrow> fault + item option" where
  "sl_level_get s item level =
     (if level < SKIPLIST_OVERFLOW then Inr (sk_next s item level)
      else
        (case sk_next3 s item of
           Plain p \<Rightarrow> if level = SKIPLIST_OVERFLOW then Inr p else Inl OutOfBounds
         | Tagged b \<Rightarrow>
             if level - SKIPLIST_OVERFLOW < oflow_cells s b
             then Inr (sk_oflow s b (level - SKIPLIST_OVERFLOW)) else Inl OutOfBounds))"

definition sl_level_set :: "sskip \<Rightarrow> node \<Rightarrow> nat \<Rightarrow> item option \<Rightarrow> fault + sskip" where
  "sl_level_set s item level v =
     (if level < SKIPLIST_OVERFLOW
      then Inr (s\<lparr>sk_next := (sk_next s)(item := (sk_next s item)(level := v))\<rparr>)
      else
        (case sk_next3 s item of
           Plain p \<Rightarrow>
             if level = SKIPLIST_OVERFLOW
             then Inr (s\<lparr>sk_next3 := (sk_next3 s)(item := Plain v)\<rparr>) else Inl OutOfBounds
         | Tagged b \<Rightarrow>
             if level - SKIPLIST_OVERFLOW < oflow_cells s b
             then Inr (s\<lparr>sk_oflow :=
                          (sk_oflow s)(b := (sk_oflow s b)(level - SKIPLIST_OVERFLOW := v))\<rparr>)
             else Inl OutOfBounds))"

text \<open>\<open>memset(item, 0, sizeof(*item))\<close>\<close>

definition sskip_item_zero :: "sskip \<Rightarrow> item \<Rightarrow> sskip" where
  "sskip_item_zero s item =
     s\<lparr>sk_next := (sk_next s)(It item := (\<lambda>l. None)),
       sk_next3 := (sk_next3 s)(It item := Plain None)\<rparr>"

definition sskip_init :: "sskip \<Rightarrow> sskip" where
  "sskip_init s =
     s\<lparr>sk_next := (sk_next s)(Hd := (\<lambda>l. None)),
       sk_next3 := (sk_next3 s)(Hd := Tagged HeadOflow),
       sk_oflow := (sk_oflow s)(HeadOflow := (\<lambda>k. None)),
       sk_count := 0\<rparr>"

text \<open>\<open>__builtin_ctz\<close> of a non-zero value: the number of trailing zero bits.\<close>

function ctz_from :: "nat \<Rightarrow> 32 word \<Rightarrow> nat" where
  "ctz_from i w = (if i < 32 \<and> \<not> bit w i then ctz_from (i + 1) w else i)"
  by pat_completeness auto
termination
  by (relation "measure (\<lambda>(i, w). 32 - i)") auto

declare ctz_from.simps [simp del]

definition ctz32 :: "32 word \<Rightarrow> nat" where
  "ctz32 w = ctz_from 0 w"

text \<open>The first loop of \<open>typesafe_skiplist_add\<close>, with 1-counted \<open>level\<close>:
  \<open>while (level >= newlevel) { next = sl_level_get(prev, level - 1); if (!next) { level--;
  continue; } cmpval = cmpfn(next, item); if (cmpval < 0) { prev = next; continue; }
  level--; }\<close>\<close>

partial_function (option) skiplist_add_descend ::
  "(item \<Rightarrow> item \<Rightarrow> int) \<Rightarrow> sskip \<Rightarrow> item \<Rightarrow> nat \<Rightarrow> nat \<Rightarrow> node \<Rightarrow> item option
     \<Rightarrow> (fault + nat \<times> node \<times> item option) option" where
  "skiplist_add_descend cmpfn s item newlevel level prev nxt =
     (if level \<ge> newlevel
      then (case sl_level_get s prev (level - 1) of
              Inl e \<Rightarrow> Some (Inl e)
            | Inr None \<Rightarrow> skiplist_add_descend cmpfn s item newlevel (level - 1) prev None
            | Inr (Some n) \<Rightarrow>
                if cmpfn n item < 0
                then skiplist_add_descend cmpfn s item newlevel level (It n) (Some n)
                else skiplist_add_descend cmpfn s item newlevel (level - 1) prev (Some n))
      else Some (Inr (level, prev, nxt)))"

text \<open>\<open>while (next && cmpfn(next, item) < 0) { prev = next; next = sl_level_get(prev, level); }\<close>\<close>

partial_function (option) skiplist_add_advance ::
  "(item \<Rightarrow> item \<Rightarrow> int) \<Rightarrow> sskip \<Rightarrow> item \<Rightarrow> nat \<Rightarrow> item option \<Rightarrow> node
     \<Rightarrow> (fault + node \<times> item option) option" where
  "skiplist_add_advance cmpfn s item level nxt prev =
     (case nxt of
        None \<Rightarrow> Some (Inr (prev, None))
      | Some n \<Rightarrow>
          if cmpfn n item < 0
          then (case sl_level_get s (It n) level of
                  Inl e \<Rightarrow> Some (Inl e)
                | Inr nxt' \<Rightarrow> skiplist_add_advance cmpfn s item level nxt' (It n))
          else Some (Inr (prev, Some n)))"

text \<open>The second loop, with 0-counted \<open>level\<close>: \<open>while (level) { level--; next =
  sl_level_get(prev, level); ...; sl_level_set(item, level, next);
  sl_level_set(prev, level, item); }\<close>\<close>

fun skiplist_add_lower ::
  "(item \<Rightarrow> item \<Rightarrow> int) \<Rightarrow> item \<Rightarrow> nat \<Rightarrow> node \<Rightarrow> sskip \<Rightarrow> (fault + sskip) option" where
  "skiplist_add_lower cmpfn item 0 prev s = Some (Inr s)"
| "skiplist_add_lower cmpfn item (Suc level) prev s =
     (case sl_level_get s prev level of
        Inl e \<Rightarrow> Some (Inl e)
      | Inr nxt \<Rightarrow>
          (case skiplist_add_advance cmpfn s item level nxt prev of
             None \<Rightarrow> None
           | Some (Inl e) \<Rightarrow> Some (Inl e)
           | Some (Inr (prev', nxt')) \<Rightarrow>
               (case sl_level_set s (It item) level nxt' of
                  Inl e \<Rightarrow> Some (Inl e)
                | Inr s1 \<Rightarrow>
                    (case sl_level_set s1 prev' level (Some item) of
                       Inl e \<Rightarrow> Some (Inl e)
                     | Inr s2 \<Rightarrow> skiplist_add_lower cmpfn item level prev' s2))))"

text \<open>
  \<open>typesafe_skiplist_add\<close>; \<open>r\<close> is the value \<open>random()\<close> returns, as \<open>__builtin_ctz\<close>
  receives it. A block from \<open>XMALLOC\<close> gets an unused number; its cells keep whatever
  \<open>sk_oflow\<close> held for that number. The function does not touch \<open>head->count\<close>.
\<close>

definition typesafe_skiplist_add ::
  "(item \<Rightarrow> item \<Rightarrow> int) \<Rightarrow> 32 word \<Rightarrow> sskip \<Rightarrow> item \<Rightarrow> (fault + sskip) option" where
  "typesafe_skiplist_add cmpfn r head item =
     (let s0 = sskip_item_zero head item
      in if r = 0 then Some (Inl CtzOfZero)
         else
           (let newlevel = min (ctz32 r + 1) SKIPLIST_MAXDEPTH;
                b = Suc (fold max (map fst (sk_blocks s0)) 0);
                s1 = (if newlevel > SKIPLIST_EMBED
                      then s0\<lparr>sk_blocks := (b, newlevel - SKIPLIST_OVERFLOW) # sk_blocks s0,
                              sk_next3 := (sk_next3 s0)(It item := Tagged (Block b))\<rparr>
                      else s0)
            in case skiplist_add_descend cmpfn s1 item newlevel SKIPLIST_MAXDEPTH Hd None of
                 None \<Rightarrow> None
               | Some (Inl e) \<Rightarrow> Some (Inl e)
               | Some (Inr (level, prev, nxt)) \<Rightarrow>
                   (case sl_level_set s1 (It item) level nxt of
                      Inl e \<Rightarrow> Some (Inl e)
                    | Inr s2 \<Rightarrow>
                        (case sl_level_set s2 prev level (Some item) of
                           Inl e \<Rightarrow> Some (Inl e)
                         | Inr s3 \<Rightarrow> skiplist_add_lower cmpfn item level prev s3))))"

text \<open>The loop of \<open>typesafe_skiplist_find\<close>, with 1-counted \<open>level\<close>.\<close>

partial_function (option) skiplist_find_loop ::
  "(item \<Rightarrow> item \<Rightarrow> int) \<Rightarrow> sskip \<Rightarrow> item \<Rightarrow> nat \<Rightarrow> node \<Rightarrow> (fault + item option) option" where
  "skiplist_find_loop cmpfn s item level prev =
     (if level \<noteq> 0
      then (case sl_level_get s prev (level - 1) of
              Inl e \<Rightarrow> Some (Inl e)
            | Inr None \<Rightarrow> skiplist_find_loop cmpfn s item (level - 1) prev
            | Inr (Some n) \<Rightarrow>
                if cmpfn n item < 0 then skiplist_find_loop cmpfn s item level (It n)
                else if cmpfn n item = 0 then Some (Inr (Some n))
                else skiplist_find_loop cmpfn s item (level - 1) prev)
      else Some (Inr None))"

definition typesafe_skiplist_find ::
  "(item \<Rightarrow> item \<Rightarrow> int) \<Rightarrow> sskip \<Rightarrow> item \<Rightarrow> (fault + item option) option" where
  "typesafe_skiplist_find cmpfn head item =
     skiplist_find_loop cmpfn head item SKIPLIST_MAXDEPTH Hd"

text \<open>The loop of \<open>typesafe_skiplist_del\<close>, with 1-counted \<open>level\<close>.\<close>

partial_function (option) skiplist_del_loop ::
  "(item \<Rightarrow> item \<Rightarrow> int) \<Rightarrow> item \<Rightarrow> nat \<Rightarrow> node \<Rightarrow> sskip \<Rightarrow> (fault + sskip) option" where
  "skiplist_del_loop cmpfn item level prev s =
     (if level \<noteq> 0
      then (case sl_level_get s prev (level - 1) of
              Inl e \<Rightarrow> Some (Inl e)
            | Inr None \<Rightarrow> skiplist_del_loop cmpfn item (level - 1) prev s
            | Inr (Some n) \<Rightarrow>
                if n = item
                then (case sl_level_get s (It item) (level - 1) of
                        Inl e \<Rightarrow> Some (Inl e)
                      | Inr v \<Rightarrow>
                          (case sl_level_set s prev (level - 1) v of
                             Inl e \<Rightarrow> Some (Inl e)
                           | Inr s1 \<Rightarrow> skiplist_del_loop cmpfn item (level - 1) prev s1))
                else if cmpfn n item < 0 then skiplist_del_loop cmpfn item level (It n) s
                else skiplist_del_loop cmpfn item (level - 1) prev s)
      else Some (Inr s))"

text \<open>\<open>typesafe_skiplist_del\<close>: after the loop the overflow block, if the element has
  one, is freed and the element is cleared. The function does not touch \<open>head->count\<close>.\<close>

definition typesafe_skiplist_del ::
  "(item \<Rightarrow> item \<Rightarrow> int) \<Rightarrow> sskip \<Rightarrow> item \<Rightarrow> (fault + sskip) option" where
  "typesafe_skiplist_del cmpfn head item =
     (case skiplist_del_loop cmpfn item SKIPLIST_MAXDEPTH Hd head of
        None \<Rightarrow> None
      | Some (Inl e) \<Rightarrow> Some (Inl e)
      | Some (Inr s1) \<Rightarrow>
          (case sk_next3 s1 (It item) of
             Plain p \<Rightarrow> Some (Inr (sskip_item_zero s1 item))
           | Tagged HeadOflow \<Rightarrow> Some (Inl BadFree)
           | Tagged (Block b) \<Rightarrow>
               if b \<in> fst ` set (sk_blocks s1)
               then Some (Inr (sskip_item_zero
                       (s1\<lparr>sk_blocks := filter (\<lambda>(k, n). k \<noteq> b) (sk_blocks s1)\<rparr>) item))
               else Some (Inl BadFree)))"

definition sskip_add ::
  "(item \<Rightarrow> item \<Rightarrow> int) \<Rightarrow> 32 word \<Rightarrow> sskip \<Rightarrow> item \<Rightarrow> (fault + sskip) option" where
  "sskip_add cmpfn r h item = typesafe_skiplist_add cmpfn r h item"

definition sskip_find ::
  "(item \<Rightarrow> item \<Rightarrow> int) \<Rightarrow> sskip \<Rightarrow> item \<Rightarrow> (fault + item option) option" where
  "sskip_find cmpfn h item = typesafe_skiplist_find cmpfn h item"

definition sskip_del ::
  "(item \<Rightarrow> item \<Rightarrow> int) \<Rightarrow> sskip \<Rightarrow> item \<Rightarrow> (fault + sskip) option" where
  "sskip_del cmpfn h item = typesafe_skiplist_del cmpfn h item"

definition sskip_pop ::
  "(item \<Rightarrow> item \<Rightarrow> int) \<Rightarrow> sskip \<Rightarrow> (fault + item option \<times> sskip) option" where
  "sskip_pop cmpfn h =
     (case sk_next h Hd 0 of
        None \<Rightarrow> Some (Inr (None, h))
      | Some sitem \<Rightarrow>
          (case typesafe_skiplist_del cmpfn h sitem of
             None \<Rightarrow> None
           | Some (Inl e) \<Rightarrow> Some (Inl e)
           | Some (Inr h') \<Rightarrow> Some (Inr (Some sitem, h'))))"

definition sskip_first :: "sskip \<Rightarrow> item option" where
  "sskip_first h = sk_next h Hd 0"

definition sskip_next :: "sskip \<Rightarrow> item \<Rightarrow> item option" where
  "sskip_next h item = sk_next h (It item) 0"

definition sskip_next_safe :: "sskip \<Rightarrow> item option \<Rightarrow> item option" where
  "sskip_next_safe h item = (case item of None \<Rightarrow> None | Some a \<Rightarrow> sk_next h (It a) 0)"

definition sskip_count :: "sskip \<Rightarrow> 64 word" where
  "sskip_count h = sk_count h"

partial_function (option) sskip_walk :: "sskip \<Rightarrow> item option \<Rightarrow> item list option" where
  "sskip_walk h p =
     (case p of
        None \<Rightarrow> Some []
      | Some a \<Rightarrow> Option.bind (sskip_walk h (sskip_next h a)) (\<lambda>r. Some (a # r)))"

definition sskip_for_each :: "sskip \<Rightarrow> item list option" where
  "sskip_for_each h = sskip_walk h (sskip_first h)"

text \<open>\<open>for_each\<close> on the hash table.\<close>

partial_function (option) thash_walk :: "thash \<Rightarrow> item option \<Rightarrow> (fault + item list) option" where
  "thash_walk h p =
     (case p of
        None \<Rightarrow> Some (Inr [])
      | Some a \<Rightarrow>
          (case thash_next h a of
             Inl e \<Rightarrow> Some (Inl e)
           | Inr n \<Rightarrow> Option.bind (thash_walk h n) (\<lambda>r. Some (map_sum id ((#) a) r))))"

definition thash_for_each :: "thash \<Rightarrow> (fault + item list) option" where
  "thash_for_each h =
     (case thash_first h of Inl e \<Rightarrow> Some (Inl e) | Inr p \<Rightarrow> thash_walk h p)"

section \<open>Sequences of calls\<close>

text \<open>Calling \<open>add\<close> for each element of a list in turn; a fault or a call that does not
  return ends the sequence.\<close>

fun ssort_add_all :: "(item \<Rightarrow> item \<Rightarrow> int) \<Rightarrow> ssort \<Rightarrow> item list \<Rightarrow> ssort option" where
  "ssort_add_all cmpfn h [] = Some h"
| "ssort_add_all cmpfn h (x # xs) =
     (case ssort_add cmpfn h x of None \<Rightarrow> None | Some h' \<Rightarrow> ssort_add_all cmpfn h' xs)"

fun thash_add_all :: "(item \<Rightarrow> 32 word) \<Rightarrow> thash \<Rightarrow> item list \<Rightarrow> (fault + thash) option" where
  "thash_add_all hashfn h [] = Some (Inr h)"
| "thash_add_all hashfn h (x # xs) =
     (case thash_add hashfn h x of
        None \<Rightarrow> None
      | Some (Inl e) \<Rightarrow> Some (Inl e)
      | Some (Inr h') \<Rightarrow> thash_add_all hashfn h' xs)"

fun sskip_add_all ::
  "(item \<Rightarrow> item \<Rightarrow> int) \<Rightarrow> sskip \<Rightarrow> (32 word \<times> item) list \<Rightarrow> (fault + sskip) option" where
  "sskip_add_all cmpfn h [] = Some (Inr h)"
| "sskip_add_all cmpfn h ((r, x) # xs) =
     (case sskip_add cmpfn r h x of
        None \<Rightarrow> None
      | Some (Inl e) \<Rightarrow> Some (Inl e)
      | Some (Inr h') \<Rightarrow> sskip_add_all cmpfn h' xs)"

section \<open>Abstraction: the elements linked from a pointer\<close>

text \<open>\<open>chain nx p xs\<close>: following the \<open>next\<close> fields \<open>nx\<close> from pointer \<open>p\<close> visits exactly
  the elements \<open>xs\<close>, in this order, and then reaches \<open>NULL\<close>.\<close>

primrec chain :: "(item \<Rightarrow> item option) \<Rightarrow> item option \<Rightarrow> item list \<Rightarrow> bool" where
  "chain nx p [] \<longleftrightarrow> p = None"
| "chain nx p (x # xs) \<longleftrightarrow> p = Some x \<and> chain nx (nx x) xs"

text \<open>The unsorted list holds \<open>xs\<close>: the chain from \<open>first\<close> is \<open>xs\<close>, \<open>last_next\<close> is the
  address of the last \<open>next\<close> field (of \<open>first\<close> when empty), and \<open>count\<close> is the length.\<close>

definition slist_is :: "slist \<Rightarrow> item list \<Rightarrow> bool" where
  "slist_is h xs \<longleftrightarrow>
     chain (sl_next h) (sl_first h) xs \<and> distinct xs \<and>
     sl_last_next h = (if xs = [] then HeadFirst else ItemNext (last xs)) \<and>
     sl_count h = of_nat (length xs)"

text \<open>The sorted list holds \<open>xs\<close>.\<close>

definition ssort_is :: "ssort \<Rightarrow> item list \<Rightarrow> bool" where
  "ssort_is h xs \<longleftrightarrow> chain (ss_next h) (ss_first h) xs"

text \<open>The hash table holds the buckets \<open>bs\<close>: the block has \<open>tabsize\<close> cells and the chain
  from cell \<open>i\<close> is \<open>bs ! i\<close>.\<close>

definition thash_is :: "thash \<Rightarrow> item list list \<Rightarrow> bool" where
  "thash_is h bs \<longleftrightarrow>
     length (th_entries h) = unat (th_tabsize h) \<and>
     list_all2 (chain (th_next h)) (th_entries h) bs"

section \<open>Example instantiations\<close>

text \<open>Zeroed memory.\<close>

definition zero_slist :: slist where
  "zero_slist = \<lparr>sl_first = None, sl_last_next = HeadFirst, sl_count = 0, sl_next = (\<lambda>a. None)\<rparr>"

definition zero_ssort :: ssort where
  "zero_ssort = \<lparr>ss_first = None, ss_count = 0, ss_next = (\<lambda>a. None)\<rparr>"

definition zero_thash :: thash where
  "zero_thash = \<lparr>th_entries = [], th_tabsize = 0, th_count = 0, th_maxsize = 0, th_minsize = 0,
     th_next = (\<lambda>a. None), th_hashval = (\<lambda>a. 0)\<rparr>"

definition zero_sskip :: sskip where
  "zero_sskip = \<lparr>sk_next = (\<lambda>n l. None), sk_next3 = (\<lambda>n. Plain None),
     sk_oflow = (\<lambda>b k. None), sk_blocks = [], sk_count = 0\<rparr>"

text \<open>Elements 1, 2, 3, 4 carry the values 5, 1, 3, 3; \<open>cmp(a, b) = a.val - b.val\<close>, and the
  hash of an element is its value.\<close>

definition ex_val :: "item \<Rightarrow> int" where
  "ex_val a = (if a = 1 then 5 else if a = 2 then 1 else if a = 3 then 3
               else if a = 4 then 3 else 0)"

definition ex_cmp :: "item \<Rightarrow> item \<Rightarrow> int" where
  "ex_cmp a b = ex_val a - ex_val b"

definition ex_hash :: "item \<Rightarrow> 32 word" where
  "ex_hash a = word_of_int (ex_val a)"

text \<open>Elements that are their own key: the hash of element \<open>a\<close> is \<open>a\<close>.\<close>

definition id_cmp :: "item \<Rightarrow> item \<Rightarrow> int" where
  "id_cmp a b = int a - int b"

definition id_hash :: "item \<Rightarrow> 32 word" where
  "id_hash a = of_nat a"

text \<open>An unsorted list holding 1, 2; a sorted list holding 2, 1 (values 1, 5); a hash table
  of two buckets holding element 1 in bucket 1.\<close>

definition ex_slist :: slist where
  "ex_slist = \<lparr>sl_first = Some 1, sl_last_next = ItemNext 2, sl_count = 2,
     sl_next = (\<lambda>a. None)(1 := Some 2)\<rparr>"

definition ex_ssort :: ssort where
  "ex_ssort = \<lparr>ss_first = Some 2, ss_count = 2, ss_next = (\<lambda>a. None)(2 := Some 1)\<rparr>"

definition ex_thash :: thash where
  "ex_thash = \<lparr>th_entries = [None, Some 1], th_tabsize = 2, th_count = 1, th_maxsize = 0,
     th_minsize = 0, th_next = (\<lambda>a. None), th_hashval = (\<lambda>a. 0)(1 := 1)\<rparr>"

text \<open>The slot at the end of the segment \<open>seg\<close> of the chain of bucket \<open>k\<close>: the bucket
  cell itself when the segment is empty, else the \<open>next\<close> field of its last element.\<close>

definition slot_after :: "nat \<Rightarrow> item list \<Rightarrow> hslot" where
  "slot_after k seg = (if seg = [] then Bucket k else HNext (last seg))"

text \<open>A hash table as \<open>add\<close> hands it to \<open>typesafe_hash_grow\<close>: four buckets, elements 4 and
  8 in bucket 0, element 1 in bucket 1, and \<open>count\<close> already incremented to 4.\<close>

definition ex_thash_full :: thash where
  "ex_thash_full = \<lparr>th_entries = [Some 4, Some 1, None, None], th_tabsize = 4, th_count = 4,
     th_maxsize = 0, th_minsize = 0, th_next = (\<lambda>a. None)(4 := Some 8),
     th_hashval = (\<lambda>a. 0)(4 := 4, 8 := 8, 1 := 1)\<rparr>"

section \<open>Evaluating the operations on concrete containers\<close>

lemma replicate_numeral_Cons: "replicate (numeral k) x = x # replicate (pred_numeral k) x"
  by (simp add: numeral_eq_Suc)

lemma skiplist_add_lower_numeral:
  "skiplist_add_lower cmpfn item (numeral k) prev s =
     (case sl_level_get s prev (pred_numeral k) of
        Inl e \<Rightarrow> Some (Inl e)
      | Inr nxt \<Rightarrow>
          (case skiplist_add_advance cmpfn s item (pred_numeral k) nxt prev of
             None \<Rightarrow> None
           | Some (Inl e) \<Rightarrow> Some (Inl e)
           | Some (Inr (prev', nxt')) \<Rightarrow>
               (case sl_level_set s (It item) (pred_numeral k) nxt' of
                  Inl e \<Rightarrow> Some (Inl e)
                | Inr s1 \<Rightarrow>
                    (case sl_level_set s1 prev' (pred_numeral k) (Some item) of
                       Inl e \<Rightarrow> Some (Inl e)
                     | Inr s2 \<Rightarrow> skiplist_add_lower cmpfn item (pred_numeral k) prev' s2))))"
  by (simp add: numeral_eq_Suc)

lemmas sl_eval = slist_init_def slist_add_head_def slist_add_tail_def slist_add_after_def
  slist_del_def slist_pop_def slist_first_def slist_next_def slist_count_def sl_read_def
  sl_write_def slist_for_each_def zero_slist_def Let_def
  slist_del_scan.simps slist_walk.simps

lemmas ss_eval = ssort_init_def ssort_add_def ssort_find_def ssort_del_def ssort_pop_def
  ssort_first_def ssort_next_def ssort_count_def ss_read_def ss_write_def ssort_for_each_def
  c_less_zero_def zero_ssort_def ex_cmp_def ex_val_def Let_def
  ssort_add_scan.simps ssort_find_scan.simps ssort_del_scan.simps ssort_walk.simps

lemmas th_eval = thash_init_def thash_add_def typesafe_hash_grow_def typesafe_hash_shrink_def
  hash_newsize_def HASH_GROW_THRESHOLD_def HASH_SHRINK_THRESHOLD_def th_read_def th_write_def
  xrealloc_def thash_find_def thash_del_def thash_pop_def thash_first_def thash_next_def
  thash_count_def thash_for_each_def zero_thash_def Let_def
  grow_chain.simps chain_end.simps shrink_fold.simps thash_scan_less.simps
  thash_find_skip.simps thash_find_run.simps thash_del_scan.simps thash_walk.simps
  replicate_numeral_Cons word_le_nat_alt word_less_nat_alt upt_rec
  ex_hash_def ex_cmp_def ex_val_def id_hash_def id_cmp_def

lemmas sk_eval = sskip_init_def sskip_add_def sskip_find_def sskip_del_def sskip_pop_def
  sskip_first_def sskip_next_def sskip_count_def sskip_for_each_def sl_level_get_def
  sl_level_set_def sskip_item_zero_def oflow_cells_def typesafe_skiplist_add_def
  typesafe_skiplist_del_def typesafe_skiplist_find_def SKIPLIST_MAXDEPTH_def SKIPLIST_EMBED_def
  SKIPLIST_OVERFLOW_def ctz32_def ctz_from.simps zero_sskip_def ex_cmp_def ex_val_def Let_def
  skiplist_add_descend.simps skiplist_add_advance.simps skiplist_find_loop.simps
  skiplist_del_loop.simps sskip_walk.simps skiplist_add_lower_numeral

section \<open>Chains under updates of the heap\<close>

lemma chain_upd: "a \<notin> set xs \<Longrightarrow> chain (nx(a := v)) p xs = chain nx p xs"
  by (induction xs arbitrary: p) auto

lemma chain_snoc:
  "chain nx p xs \<Longrightarrow> a \<notin> set xs \<Longrightarrow> distinct xs \<Longrightarrow> xs \<noteq> [] \<Longrightarrow>
   chain (nx(a := None, last xs := Some a)) p (xs @ [a])"
proof (induction xs arbitrary: p)
  case Nil
  then show ?case by simp
next
  case (Cons x xs)
  show ?case
  proof (cases "xs = []")
    case True
    with Cons.prems show ?thesis by auto
  next
    case False
    with Cons show ?thesis by auto
  qed
qed

lemma chain_head_mem: "chain nx (Some a) zs \<Longrightarrow> a \<in> set zs"
  by (cases zs) auto

section \<open>The unsorted list: insertion at either end, and pop\<close>

lemma slist_is_init: "slist_is (slist_init h) []"
  by (simp add: slist_is_def slist_init_def)

lemma slist_is_add_head:
  assumes "slist_is h xs" "a \<notin> set xs"
  shows "slist_is (slist_add_head h a) (a # xs)"
  using assms by (auto simp: slist_is_def slist_add_head_def Let_def chain_upd)

lemma slist_is_add_tail:
  assumes "slist_is h xs" "a \<notin> set xs"
  shows "slist_is (slist_add_tail h a) (xs @ [a])"
proof (cases "xs = []")
  case True
  with assms show ?thesis
    by (simp add: slist_is_def slist_add_tail_def Let_def sl_write_def)
next
  case False
  with assms chain_snoc [of "sl_next h" "sl_first h" xs a] show ?thesis
    by (simp add: slist_is_def slist_add_tail_def Let_def sl_write_def)
qed

lemma slist_is_pop_Cons:
  assumes "slist_is h (x # xs)"
  shows "fst (slist_pop h) = Some x \<and> slist_is (snd (slist_pop h)) xs"
proof -
  from assms have f: "sl_first h = Some x" and c: "chain (sl_next h) (sl_next h x) xs"
    by (simp_all add: slist_is_def)
  have e: "sl_next h x = None \<longleftrightarrow> xs = []" using c by (cases xs) auto
  show ?thesis using assms f c e
    by (auto simp: slist_is_def slist_pop_def Let_def)
qed

lemma slist_pop_Nil:
  assumes "slist_is h []"
  shows "slist_pop h = (None, h)"
  using assms by (simp add: slist_is_def slist_pop_def)

lemma slist_pop_n_is:
  "slist_is h xs \<Longrightarrow>
   fst (slist_pop_n (length xs) h) = map Some xs \<and> slist_is (snd (slist_pop_n (length xs) h)) []"
proof (induction xs arbitrary: h)
  case Nil
  then show ?case by simp
next
  case (Cons x xs)
  from slist_is_pop_Cons [OF Cons.prems]
  have 1: "fst (slist_pop h) = Some x" and 2: "slist_is (snd (slist_pop h)) xs" by simp_all
  from Cons.IH [OF 2] 1 show ?case
    by (simp add: split_beta)
qed

lemma slist_is_foldl_add_head:
  "slist_is h ys \<Longrightarrow> distinct (xs @ ys) \<Longrightarrow>
   slist_is (foldl slist_add_head h xs) (rev xs @ ys)"
proof (induction xs arbitrary: h ys)
  case Nil
  then show ?case by simp
next
  case (Cons x xs)
  from Cons.prems have "slist_is (slist_add_head h x) (x # ys)"
    by (intro slist_is_add_head) auto
  from Cons.IH [OF this] Cons.prems show ?case by simp
qed

lemma slist_is_foldl_add_tail:
  "slist_is h ys \<Longrightarrow> distinct (ys @ xs) \<Longrightarrow>
   slist_is (foldl slist_add_tail h xs) (ys @ xs)"
proof (induction xs arbitrary: h ys)
  case Nil
  then show ?case by simp
next
  case (Cons x xs)
  from Cons.prems have "slist_is (slist_add_tail h x) (ys @ [x])"
    by (intro slist_is_add_tail) auto
  from Cons.IH [OF this] Cons.prems show ?case by simp
qed

text \<open>
  Claim C8. Starting from an initialised unsorted list, for every list \<open>xs\<close> of \<open>N\<close>
  distinct elements: after \<open>add_head\<close> of each element of \<open>xs\<close> in turn, \<open>N\<close> calls of \<open>pop\<close>
  return the elements of \<open>xs\<close> in reverse order (LIFO); after \<open>add_tail\<close> of each in turn,
  \<open>N\<close> calls of \<open>pop\<close> return them in insertion order (FIFO). In both cases every element
  is returned exactly once and the list is empty afterwards: \<open>first\<close> is null, \<open>count\<close> is 0,
  \<open>last_next\<close> is back at the head, and a further \<open>pop\<close> returns null and changes nothing.
\<close>

theorem slist_add_pop_roundtrip:
  assumes "distinct xs"
  shows "let a = slist_pop_n (length xs) (foldl slist_add_head (slist_init h) xs);
             b = slist_pop_n (length xs) (foldl slist_add_tail (slist_init h) xs)
         in fst a = map Some (rev xs) \<and> fst b = map Some xs \<and>
            slist_is (snd a) [] \<and> slist_first (snd a) = None \<and> slist_count (snd a) = 0 \<and>
            slist_pop (snd a) = (None, snd a) \<and>
            slist_is (snd b) [] \<and> slist_first (snd b) = None \<and> slist_count (snd b) = 0 \<and>
            slist_pop (snd b) = (None, snd b)"
proof -
  have a: "slist_is (foldl slist_add_head (slist_init h) xs) (rev xs)"
    using slist_is_foldl_add_head [OF slist_is_init, of xs h] assms by simp
  have b: "slist_is (foldl slist_add_tail (slist_init h) xs) xs"
    using slist_is_foldl_add_tail [OF slist_is_init, of xs h] assms by simp
  from slist_pop_n_is [OF a] slist_pop_n_is [OF b] show ?thesis
    by (auto simp: Let_def slist_pop_Nil slist_first_def slist_count_def slist_is_def)
qed

theorem slist_add_pop_roundtrip_witness:
  "distinct [1, 2, 3 :: item] \<and>
   (let a = slist_pop_n (length [1, 2, 3 :: item])
              (foldl slist_add_head (slist_init zero_slist) [1, 2, 3]);
        b = slist_pop_n (length [1, 2, 3 :: item])
              (foldl slist_add_tail (slist_init zero_slist) [1, 2, 3])
    in fst a = map Some (rev [1, 2, 3]) \<and> fst b = map Some [1, 2, 3] \<and>
       slist_is (snd a) [] \<and> slist_first (snd a) = None \<and> slist_count (snd a) = 0 \<and>
       slist_pop (snd a) = (None, snd a) \<and>
       slist_is (snd b) [] \<and> slist_first (snd b) = None \<and> slist_count (snd b) = 0 \<and>
       slist_pop (snd b) = (None, snd b))"
proof -
  have d: "distinct [1, 2, 3 :: item]" by simp
  from slist_add_pop_roundtrip [OF d, of zero_slist] d show ?thesis by blast
qed

section \<open>Removing an element that is not in the container\<close>

lemma slist_del_scan_absent:
  "chain (sl_next h) (sl_read h iter) xs \<Longrightarrow> item \<notin> set xs \<Longrightarrow>
   \<exists>it. slist_del_scan h item iter = Some it \<and> sl_read h it = None"
proof (induction xs arbitrary: iter)
  case Nil
  then show ?case by (subst slist_del_scan.simps) simp
next
  case (Cons x xs)
  from Cons.prems have r: "sl_read h iter = Some x" and ne: "x \<noteq> item"
    and c: "chain (sl_next h) (sl_read h (ItemNext x)) xs" and ni: "item \<notin> set xs"
    by (auto simp: sl_read_def)
  from Cons.IH [OF c ni] obtain it where
    "slist_del_scan h item (ItemNext x) = Some it" "sl_read h it = None" by blast
  with r ne show ?case by (subst slist_del_scan.simps) simp
qed

lemma slist_del_absent:
  assumes "slist_is h xs" "item \<notin> set xs"
  shows "slist_del h item = Some h"
proof -
  from assms have "chain (sl_next h) (sl_read h HeadFirst) xs"
    by (simp add: slist_is_def sl_read_def)
  from slist_del_scan_absent [OF this assms(2)] show ?thesis
    by (auto simp: slist_del_def)
qed

lemma ssort_del_scan_absent:
  "chain (ss_next h) (ss_read h iter) xs \<Longrightarrow> item \<notin> set xs \<Longrightarrow>
   \<exists>it. ssort_del_scan h item iter = Some it \<and> ss_read h it = None"
proof (induction xs arbitrary: iter)
  case Nil
  then show ?case by (subst ssort_del_scan.simps) simp
next
  case (Cons x xs)
  from Cons.prems have r: "ss_read h iter = Some x" and ne: "x \<noteq> item"
    and c: "chain (ss_next h) (ss_read h (ItemNext x)) xs" and ni: "item \<notin> set xs"
    by (auto simp: ss_read_def)
  from Cons.IH [OF c ni] obtain it where
    "ssort_del_scan h item (ItemNext x) = Some it" "ss_read h it = None" by blast
  with r ne show ?case by (subst ssort_del_scan.simps) simp
qed

lemma ssort_del_absent:
  assumes "ssort_is h xs" "item \<notin> set xs"
  shows "ssort_del h item = Some h"
proof -
  from assms have "chain (ss_next h) (ss_read h HeadFirst) xs"
    by (simp add: ssort_is_def ss_read_def)
  from ssort_del_scan_absent [OF this assms(2)] show ?thesis
    by (auto simp: ssort_del_def)
qed

text \<open>Both scans of the hash table's \<open>del\<close> stay on the chain they start on.\<close>

lemma thash_scan_less_chain:
  "th_read h np = Inr v \<Longrightarrow> chain (th_next h) v ys \<Longrightarrow>
   \<exists>np' v' zs. thash_scan_less h hval np = Some (Inr np') \<and> th_read h np' = Inr v' \<and>
      chain (th_next h) v' zs \<and> set zs \<subseteq> set ys"
proof (induction ys arbitrary: np v)
  case Nil
  then show ?case by (subst thash_scan_less.simps) auto
next
  case (Cons x xs)
  from Cons.prems have v: "v = Some x" and c: "chain (th_next h) (th_next h x) xs" by simp_all
  show ?case
  proof (cases "th_hashval h x < hval")
    case True
    have "th_read h (HNext x) = Inr (th_next h x)" by (simp add: th_read_def)
    from Cons.IH [OF this c] obtain np' v' zs where
      "thash_scan_less h hval (HNext x) = Some (Inr np')" "th_read h np' = Inr v'"
      "chain (th_next h) v' zs" "set zs \<subseteq> set xs" by blast
    with True Cons.prems(1) v show ?thesis
      by (subst thash_scan_less.simps) auto
  next
    case False
    with Cons.prems v show ?thesis
      by (subst thash_scan_less.simps) (auto intro!: exI [of _ "x # xs"])
  qed
qed

lemma thash_del_scan_chain:
  "th_read h np = Inr v \<Longrightarrow> chain (th_next h) v ys \<Longrightarrow>
   \<exists>np' v' zs. thash_del_scan h hval item np = Some (Inr np') \<and> th_read h np' = Inr v' \<and>
      chain (th_next h) v' zs \<and> set zs \<subseteq> set ys"
proof (induction ys arbitrary: np v)
  case Nil
  then show ?case by (subst thash_del_scan.simps) auto
next
  case (Cons x xs)
  from Cons.prems have v: "v = Some x" and c: "chain (th_next h) (th_next h x) xs" by simp_all
  show ?case
  proof (cases "x \<noteq> item \<and> th_hashval h x = hval")
    case True
    have "th_read h (HNext x) = Inr (th_next h x)" by (simp add: th_read_def)
    from Cons.IH [OF this c] obtain np' v' zs where
      "thash_del_scan h hval item (HNext x) = Some (Inr np')" "th_read h np' = Inr v'"
      "chain (th_next h) v' zs" "set zs \<subseteq> set xs" by blast
    with True Cons.prems(1) v show ?thesis
      by (subst thash_del_scan.simps) auto
  next
    case False
    with Cons.prems v show ?thesis
      by (subst thash_del_scan.simps) (auto intro!: exI [of _ "x # xs"])
  qed
qed

lemma mask_index_less:
  fixes t :: "32 word"
  assumes "t \<noteq> 0"
  shows "unat (v AND (t - 1)) < unat t"
proof -
  have "v AND (t - 1) \<le> t - 1" by (rule word_and_le1)
  then have a: "unat (v AND (t - 1)) \<le> unat (t - 1)" by (simp add: word_le_nat_alt)
  have b: "unat (t - 1) = unat t - 1" using assms by (simp add: unat_minus_one)
  have c: "0 < unat t" using assms by (simp add: unat_gt_0)
  from a b c show ?thesis by arith
qed

lemma thash_del_absent:
  assumes "thash_is h bs" "item \<notin> \<Union> (set ` set bs)"
  shows "thash_del hashfn h item = Some (Inr h)"
proof (cases "th_tabsize h = 0")
  case True
  then show ?thesis by (simp add: thash_del_def)
next
  case False
  let ?i = "unat (hashfn item AND (th_tabsize h - 1))"
  from assms(1) have len: "length (th_entries h) = unat (th_tabsize h)"
    and all: "list_all2 (chain (th_next h)) (th_entries h) bs"
    by (simp_all add: thash_is_def)
  from False have i: "?i < length (th_entries h)" using mask_index_less len by simp
  from all i have c: "chain (th_next h) (th_entries h ! ?i) (bs ! ?i)"
    by (simp add: list_all2_nthD)
  from all i have "?i < length bs" by (simp add: list_all2_lengthD)
  with assms(2) have ni: "item \<notin> set (bs ! ?i)" by (metis UN_I nth_mem)
  from i have r: "th_read h (Bucket ?i) = Inr (th_entries h ! ?i)" by (simp add: th_read_def)
  from thash_scan_less_chain [OF r c, of "hashfn item"] obtain np0 v0 zs0 where
    s0: "thash_scan_less h (hashfn item) (Bucket ?i) = Some (Inr np0)"
    and r0: "th_read h np0 = Inr v0" and c0: "chain (th_next h) v0 zs0"
    and z0: "set zs0 \<subseteq> set (bs ! ?i)" by blast
  from thash_del_scan_chain [OF r0 c0, of "hashfn item" item] obtain np v zs where
    s1: "thash_del_scan h (hashfn item) item np0 = Some (Inr np)"
    and r1: "th_read h np = Inr v" and c1: "chain (th_next h) v zs"
    and z1: "set zs \<subseteq> set zs0" by blast
  have "v \<noteq> Some item"
  proof
    assume "v = Some item"
    with c1 have "item \<in> set zs" by (simp add: chain_head_mem)
    with z1 z0 ni show False by blast
  qed
  with False s0 s1 r1 show ?thesis by (simp add: thash_del_def Let_def)
qed

text \<open>
  Claim C10. For the unsorted list, the sorted list and the hash table, \<open>del\<close> of an element
  that is not linked in the container returns and leaves the whole state as it was: the
  head (with \<open>count\<close>), the bucket block and every link field are unchanged, so the
  resident elements and their order are those before the call. The containers are taken
  well-formed: the chain from \<open>first\<close> (from every bucket) ends in null.
\<close>

theorem del_absent_unchanged:
  "(slist_is l xs \<and> a \<notin> set xs \<longrightarrow> slist_del l a = Some l) \<and>
   (ssort_is s ys \<and> b \<notin> set ys \<longrightarrow> ssort_del s b = Some s) \<and>
   (thash_is t bs \<and> c \<notin> \<Union> (set ` set bs) \<longrightarrow> thash_del hashfn t c = Some (Inr t))"
proof (intro conjI impI)
  assume "slist_is l xs \<and> a \<notin> set xs"
  then have "slist_is l xs" "a \<notin> set xs" by simp_all
  then show "slist_del l a = Some l" by (rule slist_del_absent)
next
  assume "ssort_is s ys \<and> b \<notin> set ys"
  then have "ssort_is s ys" "b \<notin> set ys" by simp_all
  then show "ssort_del s b = Some s" by (rule ssort_del_absent)
next
  assume "thash_is t bs \<and> c \<notin> \<Union> (set ` set bs)"
  then have "thash_is t bs" "c \<notin> \<Union> (set ` set bs)" by simp_all
  then show "thash_del hashfn t c = Some (Inr t)" by (rule thash_del_absent)
qed

theorem del_absent_unchanged_witness:
  "slist_is ex_slist [1, 2] \<and> 5 \<notin> set [1, 2 :: item] \<and> slist_del ex_slist 5 = Some ex_slist \<and>
   ssort_is ex_ssort [2, 1] \<and> 5 \<notin> set [2, 1 :: item] \<and> ssort_del ex_ssort 5 = Some ex_ssort \<and>
   thash_is ex_thash [[], [1]] \<and> 3 \<notin> \<Union> (set ` set [[], [1 :: item]]) \<and>
   thash_del id_hash ex_thash 3 = Some (Inr ex_thash)"
proof -
  have 1: "slist_is ex_slist [1, 2] \<and> 5 \<notin> set [1, 2 :: item]"
    by (simp add: slist_is_def ex_slist_def)
  have 2: "ssort_is ex_ssort [2, 1] \<and> 5 \<notin> set [2, 1 :: item]"
    by (simp add: ssort_is_def ex_ssort_def)
  have 3: "thash_is ex_thash [[], [1]] \<and> 3 \<notin> \<Union> (set ` set [[], [1 :: item]])"
    by (simp add: thash_is_def ex_thash_def)
  note t = del_absent_unchanged
    [of ex_slist "[1, 2]" 5 ex_ssort "[2, 1]" 5 ex_thash "[[], [1]]" 3 id_hash]
  note a = t [THEN conjunct1, THEN mp, OF 1]
  note b = t [THEN conjunct2, THEN conjunct1, THEN mp, OF 2]
  note c = t [THEN conjunct2, THEN conjunct2, THEN mp, OF 3]
  from 1 2 3 a b c show ?thesis by simp
qed

section \<open>The sorted list: add and find\<close>

text \<open>
  Claim C1. The claim says that \<open>add\<close> of an element comparing equal to a resident one is
  rejected, leaves the container unchanged and returns the resident element. The code's
  \<open>add\<close> returns nothing and links every element: with the comparator
  \<open>cmp(a, b) = a.val - b.val\<close>, adding elements 1, 2, 3, 4 of values 5, 1, 3, 3 to an
  initialised sorted list gives the traversal 2, 4, 3, 1 (values 1, 3, 3, 5) and
  \<open>count = 4\<close>: elements 4 and 3 compare equal and are both resident.
\<close>

theorem ssort_add_links_equal_element:
  "ex_cmp 4 3 = 0 \<and>
   map_option (\<lambda>h. (ssort_for_each h, ssort_count h))
     (ssort_add_all ex_cmp (ssort_init zero_ssort) [1, 2, 3, 4]) = Some (Some [2, 4, 3, 1], 4)"
  by (simp add: ss_eval)

text \<open>
  Claim C3. The claim says that \<open>find\<close> returns null whenever no resident element compares
  equal to the reference. In the code \<open>cmpval\<close> holds the truth value of \<open>cmpfn(...) < 0\<close>,
  which is 0 when the scan stops at an element, so the test \<open>cmpval > 0\<close> never rejects:
  in the sorted list holding 2, 1 (values 1, 5), \<open>find\<close> of a reference of value 3, which
  compares equal to neither, returns element 1 (value 5).
\<close>

theorem ssort_find_returns_unequal_element:
  "ex_cmp 1 3 \<noteq> 0 \<and> ex_cmp 2 3 \<noteq> 0 \<and>
   map_option ssort_for_each (ssort_add_all ex_cmp (ssort_init zero_ssort) [1, 2])
     = Some (Some [2, 1]) \<and>
   Option.bind (ssort_add_all ex_cmp (ssort_init zero_ssort) [1, 2])
     (\<lambda>h. ssort_find ex_cmp h 3) = Some (Some 1)"
  by (simp add: ss_eval)

section \<open>The unsorted list: add after\<close>

text \<open>
  Claim C2. The claim says that \<open>add_after\<close> with a null anchor behaves as \<open>add_head\<close> and
  with a resident anchor links the element right after the anchor. The code's conditional
  has its branches the other way round: with a null anchor it dereferences the null
  pointer, and with any non-null anchor it does exactly what \<open>add_head\<close> does. In the list
  1, 2, \<open>add_after\<close> of element 3 with anchor 1 gives 3, 1, 2.
\<close>

theorem slist_add_after_branches_swapped:
  "slist_add_after h None item = Inl NullDeref \<and>
   slist_add_after h (Some a) item = Inr (slist_add_head h item) \<and>
   map_sum id slist_for_each
     (slist_add_after (slist_add_tail (slist_add_tail (slist_init zero_slist) 1) 2) (Some 1) 3)
     = Inr (Some [3, 1, 2])"
  by (simp add: sl_eval)

section \<open>The skip list: count\<close>

text \<open>
  Claim C4. The claim says that \<open>count\<close> equals the number of elements a full
  \<open>first\<close>/\<open>next\<close> traversal visits, for every container kind. Neither
  \<open>typesafe_skiplist_add\<close> nor \<open>typesafe_skiplist_del\<close> nor the generated wrappers update
  \<open>count\<close> of the skip list: after adding elements 1, 2, 3 (values 5, 1, 3; \<open>random()\<close>
  returning 1, 32, 2, that is levels 1, 6, 2) to an initialised skip list, the traversal
  visits 2, 3, 1 and \<open>count\<close> is 0.
\<close>

theorem sskip_count_not_maintained:
  "map_option (map_sum id (\<lambda>h. (sskip_for_each h, sskip_count h)))
     (sskip_add_all ex_cmp (sskip_init zero_sskip) [(1, 1), (32, 2), (2, 3)])
   = Some (Inr (Some [2, 3, 1], 0))"
  by (simp add: sk_eval)

text \<open>
  Claim C9. The claim says that \<open>pop\<close> on a non-empty container returns the first element
  and decrements the count by one, for every container kind. On the skip list holding the
  single element 1, \<open>pop\<close> returns element 1 and leaves the list without elements, but
  \<open>count\<close> is 0 before the call and 0 after it.
\<close>

theorem sskip_pop_keeps_count:
  "Option.bind (sskip_add ex_cmp 1 (sskip_init zero_sskip) 1)
     (\<lambda>r. case r of
             Inl e \<Rightarrow> Some (Inl e)
           | Inr h \<Rightarrow>
               map_option
                 (map_sum id (\<lambda>(x, h'). (sskip_for_each h, sskip_count h, x,
                                          sskip_for_each h', sskip_count h')))
                 (sskip_pop ex_cmp h))
   = Some (Inr (Some [1], 0, Some 1, Some [], 0))"
  by (simp add: sk_eval)

section \<open>The hash table: add, growth and lookup\<close>

text \<open>
  Claim C6. The claim says that \<open>add\<close> of an element comparing equal to a resident one is
  rejected and returns the resident element, leaving the table unchanged. The code's
  \<open>add\<close> returns nothing, never calls the comparison function and links every element:
  after adding elements 3 and 4 (both of value 3, hence of equal hash and comparing equal)
  to an initialised table, the traversal visits 4 and 3 and \<open>count\<close> is 2.
\<close>

theorem thash_add_links_equal_element:
  "ex_cmp 4 3 = 0 \<and>
   Option.bind (thash_add_all ex_hash (thash_init zero_thash) [3, 4])
     (\<lambda>r. case r of
             Inl e \<Rightarrow> Some (Inl e)
           | Inr h \<Rightarrow> map_option (map_sum id (\<lambda>xs. (xs, thash_count h))) (thash_for_each h))
   = Some (Inr ([4, 3], 2))"
  by (simp add: th_eval)

text \<open>
  Claim C7. The claim says that every resident element is stored in the bucket at index
  \<open>hash & (size - 1)\<close>. Elements 4, 8, 1, 3, each hashing to itself, are added to an
  initialised table. After the third \<open>add\<close> the table has 4 buckets and bucket 0 holds the
  chain 4, 8, and \<open>find\<close> of 8 returns element 8. The fourth \<open>add\<close> grows the table to 8
  buckets: \<open>typesafe_hash_grow\<close> moves the chain starting at element 4 to bucket 4 as a
  whole, so element 8, whose hash masked by 7 is 0, is linked in bucket 4 behind element 4,
  bucket 0 is empty, and \<open>find\<close> of 8 returns null.
\<close>

theorem thash_grow_misplaces_element:
  "map_option (map_sum id
      (\<lambda>h. (th_tabsize h, th_count h, th_entries h, th_next h 4,
             thash_find id_cmp id_hash h 8)))
     (thash_add_all id_hash (thash_init zero_thash) [4, 8, 1])
   = Some (Inr (4, 3, [Some 4, Some 1, None, None], Some 8, Some (Inr (Some 8)))) \<and>
   map_option (map_sum id
      (\<lambda>h. (th_tabsize h, th_count h, th_entries h, th_next h 4, th_next h 8,
             th_hashval h 8 AND (th_tabsize h - 1), thash_find id_cmp id_hash h 8)))
     (thash_add_all id_hash (thash_init zero_thash) [4, 8, 1, 3])
   = Some (Inr (8, 4, [None, Some 1, None, Some 3, Some 4, None, None, None], Some 8, None,
                0, Some (Inr None)))"
  by (simp add: th_eval)

section \<open>Growth of the hash table\<close>

lemma mset_concat_update:
  "k < length cs \<Longrightarrow> mset (concat (cs[k := v])) + mset (cs ! k) = mset (concat cs) + mset v"
proof (induction cs arbitrary: k)
  case Nil
  then show ?case by simp
next
  case (Cons c cs)
  show ?case
  proof (cases k)
    case 0
    then show ?thesis by simp
  next
    case (Suc k')
    with Cons.prems have "k' < length cs" by simp
    from Cons.IH [OF this] Suc show ?thesis by (simp add: add.assoc)
  qed
qed

lemma distinct_concat_nth:
  "distinct (concat cs) \<Longrightarrow> a < length cs \<Longrightarrow> distinct (cs ! a)"
  by (simp add: distinct_concat_iff)

lemma distinct_concat_disjoint_less:
  "distinct (concat cs) \<Longrightarrow> a < b \<Longrightarrow> b < length cs \<Longrightarrow> set (cs ! a) \<inter> set (cs ! b) = {}"
proof (induction cs arbitrary: a b)
  case Nil
  then show ?case by simp
next
  case (Cons c cs)
  from Cons.prems(2) obtain b' where b: "b = Suc b'" by (cases b) auto
  with Cons.prems have b': "b' < length cs" by simp
  show ?case
  proof (cases a)
    case 0
    from b' have "cs ! b' \<in> set cs" by simp
    then have "set (cs ! b') \<subseteq> set (concat cs)" by auto
    with Cons.prems(1) 0 b show ?thesis by auto
  next
    case (Suc a')
    with Cons.prems b have "a' < b'" "distinct (concat cs)" by simp_all
    from Cons.IH [OF this(2) this(1) b'] Suc b show ?thesis by simp
  qed
qed

lemma distinct_concat_disjoint:
  assumes "distinct (concat cs)" "a < length cs" "b < length cs" "a \<noteq> b" "x \<in> set (cs ! a)"
  shows "x \<notin> set (cs ! b)"
proof (cases "a < b")
  case True
  from distinct_concat_disjoint_less [OF assms(1) True assms(3)] assms(5) show ?thesis by blast
next
  case False
  with assms(4) have "b < a" by simp
  from distinct_concat_disjoint_less [OF assms(1) this assms(2)] assms(5) show ?thesis by blast
qed

lemma chain_append_rest:
  "chain nx p (seg @ rest) \<Longrightarrow> chain nx (if seg = [] then p else nx (last seg)) rest"
  by (induction seg arbitrary: p) auto

lemma chain_cut_at:
  "chain nx p (seg @ rest) \<Longrightarrow> seg \<noteq> [] \<Longrightarrow> distinct seg \<Longrightarrow> a = last seg \<Longrightarrow>
   chain (nx(a := None)) p seg"
proof (induction seg arbitrary: p)
  case Nil
  then show ?case by simp
next
  case (Cons x seg)
  show ?case
  proof (cases "seg = []")
    case True
    with Cons.prems show ?thesis by simp
  next
    case False
    with Cons.prems have "chain (nx(a := None)) (nx x) seg"
      by (intro Cons.IH) auto
    moreover from Cons.prems False have "x \<noteq> a" by auto
    moreover from Cons.prems have "p = Some x" by simp
    ultimately show ?thesis by (simp add: fun_upd_def)
  qed
qed

lemma chain_cut:
  "chain nx p (seg @ rest) \<Longrightarrow> seg \<noteq> [] \<Longrightarrow> distinct seg \<Longrightarrow>
   chain (nx(last seg := None)) p seg"
  by (rule chain_cut_at) simp_all

lemma th_read_slot_after:
  assumes "list_all2 (chain (th_next h)) (th_entries h) cs" "k < length cs" "cs ! k = seg @ rest"
  shows "th_read h (slot_after k seg) = Inr (case rest of [] \<Rightarrow> None | x # r \<Rightarrow> Some x)"
proof -
  from assms(1,2) have len: "k < length (th_entries h)" by (simp add: list_all2_lengthD)
  from assms have c: "chain (th_next h) (th_entries h ! k) (seg @ rest)"
    by (metis list_all2_nthD2)
  from chain_append_rest [OF c]
  have r: "chain (th_next h) (if seg = [] then th_entries h ! k else th_next h (last seg)) rest" .
  show ?thesis
  proof (cases "seg = []")
    case True
    with r len show ?thesis by (cases rest) (auto simp: slot_after_def th_read_def)
  next
    case False
    with r show ?thesis by (cases rest) (auto simp: slot_after_def th_read_def)
  qed
qed


lemma cut_step:
  assumes R: "list_all2 (chain (th_next h)) (th_entries h) cs"
    and D: "distinct (concat cs)"
    and k: "k < length cs" and ck: "cs ! k = seg @ x # rest"
    and k': "k' < length cs" and ne: "k \<noteq> k'"
  shows "\<exists>h1 h2. th_write h (slot_after k seg) None = Inr h1 \<and>
           th_write h1 (Bucket k') (Some x) = Inr h2 \<and>
           list_all2 (chain (th_next h2)) (th_entries h2) (cs[k := seg, k' := x # rest]) \<and>
           th_tabsize h2 = th_tabsize h \<and> th_hashval h2 = th_hashval h \<and>
           th_count h2 = th_count h \<and> th_maxsize h2 = th_maxsize h \<and>
           th_minsize h2 = th_minsize h"
proof -
  let ?es = "th_entries h" and ?nx = "th_next h"
  from R have len: "length ?es = length cs" by (rule list_all2_lengthD)
  from R have ch: "chain ?nx (?es ! b) (cs ! b)" if "b < length cs" for b
    using that by (simp add: list_all2_nthD2)
  from D k ck have dk: "distinct (seg @ x # rest)" by (metis distinct_concat_nth)
  from chain_append_rest [of ?nx "?es ! k" seg "x # rest"] ch [OF k] ck
  have cr: "chain ?nx (if seg = [] then ?es ! k else ?nx (last seg)) (x # rest)" by simp
  show ?thesis
  proof (cases "seg = []")
    case True
    let ?h1 = "h\<lparr>th_entries := ?es[k := None]\<rparr>"
    let ?h2 = "?h1\<lparr>th_entries := (th_entries ?h1)[k' := Some x]\<rparr>"
    have w1: "th_write h (slot_after k seg) None = Inr ?h1"
      using True k len by (simp add: slot_after_def th_write_def)
    have w2: "th_write ?h1 (Bucket k') (Some x) = Inr ?h2"
      using k' len by (simp add: th_write_def)
    have "chain (th_next ?h2) (th_entries ?h2 ! b) (cs[k := seg, k' := x # rest] ! b)"
      if b: "b < length cs" for b
    proof -
      consider "b = k'" | "b = k" | "b \<noteq> k'" "b \<noteq> k" by blast
      then show ?thesis
      proof cases
        case 1
        with cr True k' len show ?thesis by simp
      next
        case 2
        with True ne k len show ?thesis by simp
      next
        case 3
        with ch [OF b] show ?thesis by simp
      qed
    qed
    then have "list_all2 (chain (th_next ?h2)) (th_entries ?h2) (cs[k := seg, k' := x # rest])"
      using len by (simp add: list_all2_conv_all_nth)
    with w1 w2 show ?thesis by (intro exI [of _ ?h1] exI [of _ ?h2]) simp
  next
    case False
    let ?l = "last seg"
    let ?h1 = "h\<lparr>th_next := ?nx(?l := None)\<rparr>"
    let ?h2 = "?h1\<lparr>th_entries := (th_entries ?h1)[k' := Some x]\<rparr>"
    have w1: "th_write h (slot_after k seg) None = Inr ?h1"
      using False by (simp add: slot_after_def th_write_def)
    have w2: "th_write ?h1 (Bucket k') (Some x) = Inr ?h2"
      using k' len by (simp add: th_write_def)
    from False have lseg: "?l \<in> set seg" by simp
    with ck have lk: "?l \<in> set (cs ! k)" by simp
    from dk lseg have lrest: "?l \<notin> set (x # rest)" by auto
    have "chain (th_next ?h2) (th_entries ?h2 ! b) (cs[k := seg, k' := x # rest] ! b)"
      if b: "b < length cs" for b
    proof -
      consider "b = k'" | "b = k" | "b \<noteq> k'" "b \<noteq> k" by blast
      then show ?thesis
      proof cases
        case 1
        from cr False have "chain ?nx (Some x) (x # rest)" by simp
        with chain_upd [OF lrest, of ?nx None "Some x"]
        have "chain (?nx(?l := None)) (Some x) (x # rest)" by blast
        with 1 k' len show ?thesis by simp
      next
        case 2
        from ch [OF k] ck have "chain ?nx (?es ! k) (seg @ x # rest)" by simp
        from chain_cut [OF this False] dk have "chain (?nx(?l := None)) (?es ! k) seg" by simp
        with 2 ne k show ?thesis by simp
      next
        case 3
        from distinct_concat_disjoint [OF D k b _ lk] 3 have "?l \<notin> set (cs ! b)" by blast
        then have "chain (?nx(?l := None)) (?es ! b) (cs ! b) = chain ?nx (?es ! b) (cs ! b)"
          by (rule chain_upd)
        with ch [OF b] have "chain (?nx(?l := None)) (?es ! b) (cs ! b)" by blast
        with 3 show ?thesis by simp
      qed
    qed
    then have "list_all2 (chain (th_next ?h2)) (th_entries ?h2) (cs[k := seg, k' := x # rest])"
      using len by (simp add: list_all2_conv_all_nth)
    with w1 w2 show ?thesis by (intro exI [of _ ?h1] exI [of _ ?h2]) simp
  qed
qed


lemma mset_concat_move:
  assumes "k < length cs" "k' < length cs" "k \<noteq> k'" "cs ! k = seg @ rest" "cs ! k' = []"
  shows "mset (concat (cs[k := seg, k' := rest])) = mset (concat cs)"
proof -
  from mset_concat_update [OF assms(1), of seg] assms(4)
  have 1: "mset (concat (cs[k := seg])) + (mset seg + mset rest) = mset (concat cs) + mset seg"
    by simp
  from assms have "k' < length (cs[k := seg])" "cs[k := seg] ! k' = []" by simp_all
  from mset_concat_update [OF this(1), of rest] this(2)
  have 2: "mset (concat (cs[k := seg, k' := rest])) = mset (concat (cs[k := seg])) + mset rest"
    by simp
  from 1 have "mset (concat (cs[k := seg])) + mset rest = mset (concat cs)"
    by (simp add: add.assoc add.left_commute)
  with 2 show ?thesis by simp
qed

lemma grow_chain_correct:
  fixes P :: "nat \<Rightarrow> item set"
  assumes "list_all2 (chain (th_next h)) (th_entries h) cs"
    and "distinct (concat cs)"
    and "k < length cs" and "cs ! k = seg @ rest"
    and "apos = slot_after k seg"
    and "unat j = k + unat (th_tabsize h)"
    and "0 < unat (th_tabsize h)"
    and "unat m = length cs"
    and "length cs + unat (th_tabsize h) < 2 ^ 32"
    and "\<forall>t>0. k + t * unat (th_tabsize h) < length cs \<longrightarrow> cs ! (k + t * unat (th_tabsize h)) = []"
    and "\<forall>b<length cs. set (cs ! b) \<subseteq> P (b mod unat (th_tabsize h))"
  shows "\<exists>h' cs'. grow_chain m h apos j = Some (Inr h') \<and>
           list_all2 (chain (th_next h')) (th_entries h') cs' \<and> length cs' = length cs \<and>
           mset (concat cs') = mset (concat cs) \<and>
           th_tabsize h' = th_tabsize h \<and> th_hashval h' = th_hashval h \<and>
           th_count h' = th_count h \<and> th_maxsize h' = th_maxsize h \<and>
           th_minsize h' = th_minsize h \<and>
           (\<forall>b<length cs. b mod unat (th_tabsize h) \<noteq> k mod unat (th_tabsize h) \<longrightarrow> cs' ! b = cs ! b) \<and>
           (\<forall>b<length cs. set (cs' ! b) \<subseteq> P (b mod unat (th_tabsize h)))"
  using assms
proof (induction rest arbitrary: h cs k seg apos j)
  case Nil
  from th_read_slot_after [OF Nil.prems(1) Nil.prems(3) Nil.prems(4)] Nil.prems(5)
  have "th_read h apos = Inr None" by simp
  then have "grow_chain m h apos j = Some (Inr h)" by (subst grow_chain.simps) simp
  with Nil.prems show ?case by (intro exI [of _ h] exI [of _ cs]) simp
next
  case (Cons x rest)
  let ?n = "unat (th_tabsize h)"
  note R = Cons.prems(1) and D = Cons.prems(2) and k = Cons.prems(3) and ck = Cons.prems(4)
    and ap = Cons.prems(5) and j = Cons.prems(6) and n0 = Cons.prems(7) and m = Cons.prems(8)
    and B = Cons.prems(9) and E = Cons.prems(10) and Pv = Cons.prems(11)
  from th_read_slot_after [OF R k ck] ap have rd: "th_read h apos = Inr (Some x)" by simp
  show ?case
  proof (cases "j \<le> th_hashval h x AND (m - 1)")
    case True
    let ?k' = "unat j"
    from k m have "m \<noteq> 0" by (auto simp: unat_eq_zero)
    from mask_index_less [OF this, of "th_hashval h x"] True m
    have k': "?k' < length cs" by (simp add: word_le_nat_alt)
    from j n0 have ne: "k \<noteq> ?k'" by simp
    from E k' j n0 have e': "cs ! ?k' = []" by (metis mult_1 zero_less_one)
    let ?cs2 = "cs[k := seg, ?k' := x # rest]"
    from cut_step [OF R D k ck k' ne] obtain h1 h2 where
      w1: "th_write h (slot_after k seg) None = Inr h1"
      and w2: "th_write h1 (Bucket ?k') (Some x) = Inr h2"
      and R2: "list_all2 (chain (th_next h2)) (th_entries h2) ?cs2"
      and f2: "th_tabsize h2 = th_tabsize h" "th_hashval h2 = th_hashval h"
        "th_count h2 = th_count h" "th_maxsize h2 = th_maxsize h" "th_minsize h2 = th_minsize h"
      by blast
    have M2: "mset (concat ?cs2) = mset (concat cs)"
      by (rule mset_concat_move [OF k k' ne ck e'])
    with D have D2: "distinct (concat ?cs2)" by (metis mset_eq_imp_distinct_iff)
    have k2: "?k' < length ?cs2" using k' by simp
    have ck2: "?cs2 ! ?k' = [x] @ rest" using k' by simp
    have ap2: "HNext x = slot_after ?k' [x]" by (simp add: slot_after_def)
    have j2: "unat (j + th_tabsize h2) = ?k' + unat (th_tabsize h2)"
    proof -
      from k' B have "unat j + ?n < 2 ^ LENGTH(32)" by simp
      then have "unat (j + th_tabsize h) = unat j + ?n" by (rule unat_add_lem [THEN iffD1])
      then show ?thesis by (simp add: f2)
    qed
    have n2: "0 < unat (th_tabsize h2)" using n0 by (simp add: f2)
    have m2: "unat m = length ?cs2" using m by simp
    have B2: "length ?cs2 + unat (th_tabsize h2) < 2 ^ 32" using B by (simp add: f2)
    have E2: "\<forall>t>0. ?k' + t * unat (th_tabsize h2) < length ?cs2 \<longrightarrow>
                ?cs2 ! (?k' + t * unat (th_tabsize h2)) = []"
    proof (intro allI impI)
      fix t :: nat assume t: "0 < t" and lt: "?k' + t * unat (th_tabsize h2) < length ?cs2"
      have eq: "?k' + t * ?n = k + (t + 1) * ?n" using j by simp
      from t n0 have "0 < t * ?n" by simp
      with eq j have d: "?k' + t * ?n \<noteq> k" "?k' + t * ?n \<noteq> ?k'" by simp_all
      from lt eq have "k + (t + 1) * ?n < length cs" by (simp add: f2)
      with E have "cs ! (k + (t + 1) * ?n) = []" by (metis add_gr_0 zero_less_one)
      with d eq show "?cs2 ! (?k' + t * unat (th_tabsize h2)) = []"
        by (simp add: f2 add.assoc)
    qed
    have P2: "\<forall>b<length ?cs2. set (?cs2 ! b) \<subseteq> P (b mod unat (th_tabsize h2))"
    proof (intro allI impI)
      fix b assume b: "b < length ?cs2"
      from Pv k ck have pk: "set (seg @ x # rest) \<subseteq> P (k mod ?n)" by metis
      have km: "?k' mod ?n = k mod ?n" using j by simp
      consider "b = ?k'" | "b = k" "b \<noteq> ?k'" | "b \<noteq> ?k'" "b \<noteq> k" by blast
      then show "set (?cs2 ! b) \<subseteq> P (b mod unat (th_tabsize h2))"
      proof cases
        case 1
        with pk km k' show ?thesis by (auto simp: f2)
      next
        case 2
        with pk k show ?thesis by (auto simp: f2)
      next
        case 3
        with Pv b show ?thesis by (simp add: f2)
      qed
    qed
    from Cons.IH [OF R2 D2 k2 ck2 ap2 j2 n2 m2 B2 E2 P2] obtain h' cs' where
      g: "grow_chain m h2 (HNext x) (j + th_tabsize h2) = Some (Inr h')"
      and R': "list_all2 (chain (th_next h')) (th_entries h') cs'"
      and L': "length cs' = length ?cs2"
      and M': "mset (concat cs') = mset (concat ?cs2)"
      and f': "th_tabsize h' = th_tabsize h2" "th_hashval h' = th_hashval h2"
        "th_count h' = th_count h2" "th_maxsize h' = th_maxsize h2" "th_minsize h' = th_minsize h2"
      and fr': "\<forall>b<length ?cs2. b mod unat (th_tabsize h2) \<noteq> ?k' mod unat (th_tabsize h2)
                  \<longrightarrow> cs' ! b = ?cs2 ! b"
      and P': "\<forall>b<length ?cs2. set (cs' ! b) \<subseteq> P (b mod unat (th_tabsize h2))"
      by blast
    have g0: "grow_chain m h apos j = Some (Inr h')"
      using rd True w1 w2 g ap by (subst grow_chain.simps) simp
    have fr: "\<forall>b<length cs. b mod ?n \<noteq> k mod ?n \<longrightarrow> cs' ! b = cs ! b"
    proof (intro allI impI)
      fix b assume b: "b < length cs" and bn: "b mod ?n \<noteq> k mod ?n"
      have km: "?k' mod ?n = k mod ?n" using j by simp
      from bn km have d: "b \<noteq> k" "b \<noteq> ?k'" by auto
      from fr' b bn km have "cs' ! b = ?cs2 ! b" by (simp add: f2)
      with d show "cs' ! b = cs ! b" by simp
    qed
    from g0 R' L' M' M2 f' f2 fr P' show ?thesis
      by (intro exI [of _ h'] exI [of _ cs']) simp
  next
    case False
    have ck2: "cs ! k = (seg @ [x]) @ rest" using ck by simp
    have ap2: "HNext x = slot_after k (seg @ [x])" by (simp add: slot_after_def)
    from Cons.IH [OF R D k ck2 ap2 j n0 m B E Pv] obtain h' cs' where
      g: "grow_chain m h (HNext x) j = Some (Inr h')"
      and rest: "list_all2 (chain (th_next h')) (th_entries h') cs' \<and> length cs' = length cs \<and>
           mset (concat cs') = mset (concat cs) \<and>
           th_tabsize h' = th_tabsize h \<and> th_hashval h' = th_hashval h \<and>
           th_count h' = th_count h \<and> th_maxsize h' = th_maxsize h \<and>
           th_minsize h' = th_minsize h \<and>
           (\<forall>b<length cs. b mod ?n \<noteq> k mod ?n \<longrightarrow> cs' ! b = cs ! b) \<and>
           (\<forall>b<length cs. set (cs' ! b) \<subseteq> P (b mod ?n))"
      by blast
    have "grow_chain m h apos j = Some (Inr h')"
      using rd False g by (subst grow_chain.simps) simp
    with rest show ?thesis by blast
  qed
qed


lemma grow_buckets_correct:
  fixes P :: "nat \<Rightarrow> item set"
  assumes "list_all2 (chain (th_next h)) (th_entries h) cs"
    and "distinct (concat cs)"
    and "0 < unat (th_tabsize h)"
    and "unat m = length cs"
    and "length cs + unat (th_tabsize h) < 2 ^ 32"
    and "unat (th_tabsize h) \<le> length cs"
    and "i \<le> unat (th_tabsize h)"
    and "\<forall>b<length cs. unat (th_tabsize h) \<le> b \<and> i \<le> b mod unat (th_tabsize h) \<longrightarrow> cs ! b = []"
    and "\<forall>b<length cs. set (cs ! b) \<subseteq> P (b mod unat (th_tabsize h))"
  shows "\<exists>h' cs'. grow_buckets m [i..<unat (th_tabsize h)] h = Some (Inr h') \<and>
           list_all2 (chain (th_next h')) (th_entries h') cs' \<and> length cs' = length cs \<and>
           mset (concat cs') = mset (concat cs) \<and>
           th_tabsize h' = th_tabsize h \<and> th_hashval h' = th_hashval h \<and>
           th_count h' = th_count h \<and> th_maxsize h' = th_maxsize h \<and>
           th_minsize h' = th_minsize h \<and>
           (\<forall>b<length cs. set (cs' ! b) \<subseteq> P (b mod unat (th_tabsize h)))"
  using assms
proof (induction "unat (th_tabsize h) - i" arbitrary: i h cs)
  case 0
  then have "[i..<unat (th_tabsize h)] = []" by simp
  with 0 show ?case by (intro exI [of _ h] exI [of _ cs]) simp
next
  case (Suc d)
  let ?n = "unat (th_tabsize h)"
  note R = Suc.prems(1) and D = Suc.prems(2) and n0 = Suc.prems(3) and m = Suc.prems(4)
    and B = Suc.prems(5) and nle = Suc.prems(6) and E = Suc.prems(8) and Pv = Suc.prems(9)
  from Suc.hyps(2) have i: "i < ?n" by simp
  then have upt: "[i..<?n] = i # [Suc i..<?n]" by (simp add: upt_conv_Cons)
  from i nle have k: "i < length cs" by simp
  have ck: "cs ! i = [] @ cs ! i" by simp
  have ap: "Bucket i = slot_after i []" by (simp add: slot_after_def)
  have j: "unat (of_nat i + th_tabsize h) = i + ?n"
  proof -
    from i nle B have a: "i < 2 ^ LENGTH(32)" by simp
    then have b: "unat (of_nat i :: 32 word) = i" by (simp add: unat_of_nat)
    from i nle B have "unat (of_nat i :: 32 word) + ?n < 2 ^ LENGTH(32)" by (simp add: b)
    then have "unat (of_nat i + th_tabsize h) = unat (of_nat i :: 32 word) + ?n"
      by (rule unat_add_lem [THEN iffD1])
    with b show ?thesis by simp
  qed
  have E1: "\<forall>t>0. i + t * ?n < length cs \<longrightarrow> cs ! (i + t * ?n) = []"
  proof (intro allI impI)
    fix t :: nat assume t: "0 < t" and lt: "i + t * ?n < length cs"
    from t have "1 * ?n \<le> t * ?n" by (intro mult_le_mono1) simp
    then have 1: "?n \<le> i + t * ?n" by arith
    from i have 2: "(i + t * ?n) mod ?n = i" by simp
    from E lt 1 2 show "cs ! (i + t * ?n) = []" by simp
  qed
  from grow_chain_correct [OF R D k ck ap j n0 m B E1 Pv] obtain h1 cs1 where
    g: "grow_chain m h (Bucket i) (of_nat i + th_tabsize h) = Some (Inr h1)"
    and R1: "list_all2 (chain (th_next h1)) (th_entries h1) cs1"
    and L1: "length cs1 = length cs"
    and M1: "mset (concat cs1) = mset (concat cs)"
    and f1: "th_tabsize h1 = th_tabsize h" "th_hashval h1 = th_hashval h"
      "th_count h1 = th_count h" "th_maxsize h1 = th_maxsize h" "th_minsize h1 = th_minsize h"
    and fr: "\<forall>b<length cs. b mod ?n \<noteq> i mod ?n \<longrightarrow> cs1 ! b = cs ! b"
    and P1: "\<forall>b<length cs. set (cs1 ! b) \<subseteq> P (b mod ?n)"
    by blast
  from M1 D have D1: "distinct (concat cs1)" by (metis mset_eq_imp_distinct_iff)
  have d1: "d = unat (th_tabsize h1) - Suc i" using Suc.hyps(2) by (simp add: f1)
  have E2: "\<forall>b<length cs1. unat (th_tabsize h1) \<le> b \<and> Suc i \<le> b mod unat (th_tabsize h1)
              \<longrightarrow> cs1 ! b = []"
  proof (intro allI impI)
    fix b assume b: "b < length cs1"
      and c: "unat (th_tabsize h1) \<le> b \<and> Suc i \<le> b mod unat (th_tabsize h1)"
    from c i have "b mod ?n \<noteq> i mod ?n" by (simp add: f1)
    with fr b L1 have "cs1 ! b = cs ! b" by simp
    moreover from E b c L1 have "cs ! b = []" by (simp add: f1)
    ultimately show "cs1 ! b = []" by simp
  qed
  have n0': "0 < unat (th_tabsize h1)" using n0 by (simp add: f1)
  have m': "unat m = length cs1" using m L1 by simp
  have B': "length cs1 + unat (th_tabsize h1) < 2 ^ 32" using B L1 by (simp add: f1)
  have nle': "unat (th_tabsize h1) \<le> length cs1" using nle L1 by (simp add: f1)
  have i': "Suc i \<le> unat (th_tabsize h1)" using i by (simp add: f1)
  have P1': "\<forall>b<length cs1. set (cs1 ! b) \<subseteq> P (b mod unat (th_tabsize h1))"
    using P1 L1 by (simp add: f1)
  from Suc.hyps(1) [OF d1 R1 D1 n0' m' B' nle' i' E2 P1'] obtain h' cs' where
    g': "grow_buckets m [Suc i..<unat (th_tabsize h1)] h1 = Some (Inr h')"
    and rest: "list_all2 (chain (th_next h')) (th_entries h') cs' \<and> length cs' = length cs1 \<and>
           mset (concat cs') = mset (concat cs1) \<and>
           th_tabsize h' = th_tabsize h1 \<and> th_hashval h' = th_hashval h1 \<and>
           th_count h' = th_count h1 \<and> th_maxsize h' = th_maxsize h1 \<and>
           th_minsize h' = th_minsize h1 \<and>
           (\<forall>b<length cs1. set (cs' ! b) \<subseteq> P (b mod unat (th_tabsize h1)))"
    by blast
  have "grow_buckets m [i..<?n] h = Some (Inr h')"
    using g g' by (simp add: upt f1)
  with rest L1 M1 f1 show ?case
    by (intro exI [of _ h'] exI [of _ cs']) simp
qed


lemma smear_step_bits:
  fixes w c :: "32 word"
  assumes "\<And>i. bit w i \<longleftrightarrow> (\<exists>e<d. bit c (i + e))"
  shows "bit (w OR drop_bit d w) i \<longleftrightarrow> (\<exists>e<2 * d. bit c (i + e))"
proof -
  have "bit (w OR drop_bit d w) i \<longleftrightarrow> bit w i \<or> bit w (d + i)"
    by (simp add: bit_or_iff bit_drop_bit_eq)
  also have "\<dots> \<longleftrightarrow> (\<exists>e<d. bit c (i + e)) \<or> (\<exists>e<d. bit c (d + i + e))"
    by (simp add: assms)
  also have "\<dots> \<longleftrightarrow> (\<exists>e<2 * d. bit c (i + e))"
  proof
    assume "(\<exists>e<d. bit c (i + e)) \<or> (\<exists>e<d. bit c (d + i + e))"
    then show "\<exists>e<2 * d. bit c (i + e)"
    proof
      assume "\<exists>e<d. bit c (i + e)"
      then obtain e where "e < d" "bit c (i + e)" by blast
      then show ?thesis by (intro exI [of _ e]) simp
    next
      assume "\<exists>e<d. bit c (d + i + e)"
      then obtain e where "e < d" "bit c (d + i + e)" by blast
      then show ?thesis by (intro exI [of _ "d + e"]) (simp add: add.assoc add.left_commute)
    qed
  next
    assume "\<exists>e<2 * d. bit c (i + e)"
    then obtain e where e: "e < 2 * d" "bit c (i + e)" by blast
    show "(\<exists>e<d. bit c (i + e)) \<or> (\<exists>e<d. bit c (d + i + e))"
    proof (cases "e < d")
      case True
      with e show ?thesis by blast
    next
      case False
      with e have "e - d < d" "bit c (d + i + (e - d))"
        by (simp_all add: add.assoc add.left_commute)
      then show ?thesis by blast
    qed
  qed
  finally show ?thesis .
qed

text \<open>With \<open>k\<close> the number of significant bits of \<open>c\<close>, the computed size is \<open>2 ^ k\<close>.\<close>

lemma hash_newsize_pow2:
  fixes c :: "32 word"
  assumes lo: "2 ^ (k - 1) \<le> unat c" and hi: "unat c < 2 ^ k" and k: "0 < k"
  shows "hash_newsize c = 2 ^ k"
proof -
  define n1 where "n1 = c OR drop_bit 1 c"
  define n2 where "n2 = n1 OR drop_bit 2 n1"
  define n3 where "n3 = n2 OR drop_bit 4 n2"
  define n4 where "n4 = n3 OR drop_bit 8 n3"
  define n5 where "n5 = n4 OR drop_bit 16 n4"
  have new: "hash_newsize c = n5 + 1"
    by (simp add: hash_newsize_def Let_def n1_def n2_def n3_def n4_def n5_def)
  have 0: "bit c i \<longleftrightarrow> (\<exists>e<1. bit c (i + e))" for i by simp
  have 1: "bit n1 i \<longleftrightarrow> (\<exists>e<2. bit c (i + e))" for i
    unfolding n1_def using smear_step_bits [of c 1 c i, OF 0] by simp
  have 2: "bit n2 i \<longleftrightarrow> (\<exists>e<4. bit c (i + e))" for i
    unfolding n2_def using smear_step_bits [of n1 2 c i, OF 1] by simp
  have 3: "bit n3 i \<longleftrightarrow> (\<exists>e<8. bit c (i + e))" for i
    unfolding n3_def using smear_step_bits [of n2 4 c i, OF 2] by simp
  have 4: "bit n4 i \<longleftrightarrow> (\<exists>e<16. bit c (i + e))" for i
    unfolding n4_def using smear_step_bits [of n3 8 c i, OF 3] by simp
  have 5: "bit n5 i \<longleftrightarrow> (\<exists>e<32. bit c (i + e))" for i
    unfolding n5_def using smear_step_bits [of n4 16 c i, OF 4] by simp
  have top: "bit c (k - 1)"
  proof -
    have "unat c < 2 * 2 ^ (k - 1)" using hi k by (metis Suc_pred' power_Suc)
    with lo have "unat c div 2 ^ (k - 1) = 1" by (simp add: div_nat_eqI)
    then have "bit (unat c) (k - 1)" by (simp add: bit_iff_odd)
    then show ?thesis by (simp add: bit_unsigned_iff)
  qed
  have above: "\<not> bit c j" if "k \<le> j" for j
  proof -
    have "(2::nat) ^ k \<le> 2 ^ j" using that by (intro power_increasing) simp_all
    with hi have "unat c < 2 ^ j" by (rule less_le_trans)
    then have "unat c div 2 ^ j = 0" by simp
    then have "\<not> bit (unat c) j" by (simp add: bit_iff_odd)
    then show ?thesis by (simp add: bit_unsigned_iff)
  qed
  have k32: "k \<le> 32"
  proof (rule ccontr)
    assume "\<not> k \<le> 32"
    then have "32 \<le> k - 1" by simp
    with top show False by (auto dest: bit_imp_le_length)
  qed
  have "n5 = mask k"
  proof (rule bit_word_eqI)
    fix i assume i: "i < LENGTH(32)"
    have "(\<exists>e<32. bit c (i + e)) \<longleftrightarrow> i < k"
    proof
      assume "\<exists>e<32. bit c (i + e)"
      then obtain e where "bit c (i + e)" by blast
      with above [of "i + e"] show "i < k" by (cases "k \<le> i + e") auto
    next
      assume "i < k"
      then have "k - 1 = i + (k - 1 - i)" by simp
      moreover have "k - 1 - i < 32" using k32 k by simp
      ultimately show "\<exists>e<32. bit c (i + e)" using top by metis
    qed
    then show "bit n5 i \<longleftrightarrow> bit (mask k :: 32 word) i"
      using i by (simp add: 5 bit_mask_iff)
  qed
  with new show ?thesis by (simp add: mask_eq_decr_exp)
qed

lemma bit_length_exists:
  fixes c :: "32 word"
  assumes "c \<noteq> 0" "unat c < 2 ^ 31"
  shows "\<exists>k. 0 < k \<and> k \<le> 31 \<and> 2 ^ (k - 1) \<le> unat c \<and> unat c < 2 ^ k"
proof -
  define k where "k = (LEAST k. unat c < 2 ^ k)"
  from assms(2) have hi: "unat c < 2 ^ k" unfolding k_def by (rule LeastI)
  from assms(2) have k31: "k \<le> 31" unfolding k_def by (rule Least_le)
  from assms(1) have "0 < unat c" by (simp add: unat_gt_0)
  with hi have k0: "0 < k" by (cases k) auto
  have lo: "2 ^ (k - 1) \<le> unat c"
  proof (rule ccontr)
    assume "\<not> 2 ^ (k - 1) \<le> unat c"
    then have "unat c < 2 ^ (k - 1)" by simp
    then have "k \<le> k - 1" unfolding k_def by (rule Least_le)
    with k0 show False by simp
  qed
  from k0 k31 lo hi show ?thesis by blast
qed


text \<open>
  Claim C5, as amended. When \<open>add\<close> has incremented \<open>count\<close> and calls
  \<open>typesafe_hash_grow\<close> on a well-formed table (every bucket chain ends in null, no
  element is linked twice) with no maximum size set, \<open>count\<close> at least the table size,
  and \<open>count\<close> below \<open>2 ^ 31\<close>: the call returns; the new table size is the smallest power
  of two strictly greater than \<open>count\<close> (\<open>2 ^ k\<close> with \<open>count < 2 ^ k \<le> 2 * count\<close>); the
  table is well-formed again and holds exactly the elements it held, each once; and every
  element linked in new bucket \<open>b\<close> was linked in old bucket \<open>b mod old_size\<close>, so the
  entries of old bucket \<open>i\<close> are found only in buckets \<open>i\<close>, \<open>i + old_size\<close>,
  \<open>i + 2 * old_size\<close>, ...
\<close>

theorem thash_grow_size_and_buckets:
  assumes wf: "thash_is h bs" and D: "distinct (concat bs)"
    and mx: "th_maxsize h = 0"
    and trig: "th_tabsize h \<le> th_count h"
    and c0: "th_count h \<noteq> 0" and c31: "unat (th_count h) < 2 ^ 31"
  shows "\<exists>h' bs' k. typesafe_hash_grow h = Some (Inr h') \<and> thash_is h' bs' \<and>
           unat (th_tabsize h') = 2 ^ k \<and>
           unat (th_count h) < 2 ^ k \<and> 2 ^ k \<le> 2 * unat (th_count h) \<and>
           th_count h' = th_count h \<and> th_hashval h' = th_hashval h \<and>
           mset (concat bs') = mset (concat bs) \<and>
           (\<forall>b<length bs'. set (bs' ! b) \<subseteq>
                (if bs = [] then {} else set (bs ! (b mod length bs))))"
proof -
  let ?n = "unat (th_tabsize h)"
  from bit_length_exists [OF c0 c31] obtain k where
    k0: "0 < k" and k31: "k \<le> 31" and lo: "2 ^ (k - 1) \<le> unat (th_count h)"
    and hi: "unat (th_count h) < 2 ^ k" by blast
  let ?m = "2 ^ k :: 32 word"
  have new: "hash_newsize (th_count h) = ?m" by (rule hash_newsize_pow2 [OF lo hi k0])
  have um: "unat ?m = 2 ^ k"
  proof -
    have "(2::nat) ^ k < 2 ^ 32" using k31 by (intro power_strict_increasing) simp_all
    moreover have "?m = word_of_nat (2 ^ k)" by simp
    ultimately show ?thesis by (simp only: unat_of_nat) simp
  qed
  from lo k0 have le2: "2 ^ k \<le> 2 * unat (th_count h)"
    by (metis Suc_pred' mult_le_mono2 power_Suc)
  from trig have nc: "?n \<le> unat (th_count h)" by (simp add: word_le_nat_alt)
  with hi have nm: "?n < 2 ^ k" by simp
  then have ne: "?m \<noteq> th_tabsize h" using um by auto
  from nm um have nlt: "\<not> ?m < th_tabsize h" by (simp add: word_less_nat_alt)
  from wf have len: "length (th_entries h) = ?n"
    and R: "list_all2 (chain (th_next h)) (th_entries h) bs"
    by (simp_all add: thash_is_def)
  from R len have lbs: "length bs = ?n" by (simp add: list_all2_lengthD)
  let ?es = "th_entries h @ replicate (2 ^ k - ?n) None"
  let ?cs = "bs @ replicate (2 ^ k - ?n) []"
  let ?h0 = "h\<lparr>th_entries := ?es\<rparr>"
  have es: "take ?n (xrealloc (th_entries h) (unat ?m)) @ replicate (unat ?m - ?n) None = ?es"
    using len nm um by (simp add: xrealloc_def)
  have grow: "typesafe_hash_grow h =
      (case grow_buckets ?m [0..<?n] ?h0 of
         None \<Rightarrow> None
       | Some (Inl e) \<Rightarrow> Some (Inl e)
       | Some (Inr h') \<Rightarrow> Some (Inr (h'\<lparr>th_tabsize := ?m\<rparr>)))"
    using new mx ne nlt es by (simp add: typesafe_hash_grow_def Let_def)
  have "list_all2 (chain (th_next h)) (replicate (2 ^ k - ?n) None) (replicate (2 ^ k - ?n) [])"
    by (simp add: list_all2_conv_all_nth)
  with R have "list_all2 (chain (th_next h)) ?es ?cs" by (rule list_all2_appendI)
  then have R0: "list_all2 (chain (th_next ?h0)) (th_entries ?h0) ?cs" by simp
  have D0: "distinct (concat ?cs)" using D by simp
  have L0: "length ?cs = 2 ^ k" using lbs nm by simp
  have B0: "length ?cs + ?n < 2 ^ 32"
  proof -
    have "(2::nat) ^ k \<le> 2 ^ 31" using k31 by (intro power_increasing) simp_all
    with nm L0 show ?thesis by simp
  qed
  show ?thesis
  proof (cases "?n = 0")
    case True
    with lbs have bs: "bs = []" by simp
    from True grow have g: "typesafe_hash_grow h = Some (Inr (?h0\<lparr>th_tabsize := ?m\<rparr>))" by simp
    have "thash_is (?h0\<lparr>th_tabsize := ?m\<rparr>) ?cs"
      using R0 um len nm by (simp add: thash_is_def)
    with g um hi le2 bs show ?thesis
      by (intro exI [of _ "?h0\<lparr>th_tabsize := ?m\<rparr>"] exI [of _ ?cs] exI [of _ k]) simp
  next
    case False
    then have n0: "0 < unat (th_tabsize ?h0)" by simp
    have m0: "unat ?m = length ?cs" using um L0 by simp
    have B0': "length ?cs + unat (th_tabsize ?h0) < 2 ^ 32" using B0 by simp
    have nle: "unat (th_tabsize ?h0) \<le> length ?cs" using L0 nm by simp
    have E0: "\<forall>b<length ?cs. unat (th_tabsize ?h0) \<le> b \<and> 0 \<le> b mod unat (th_tabsize ?h0)
                \<longrightarrow> ?cs ! b = []"
      using lbs by (simp add: nth_append)
    have P0: "\<forall>b<length ?cs. set (?cs ! b) \<subseteq> (\<lambda>i. set (bs ! i)) (b mod unat (th_tabsize ?h0))"
      using lbs by (simp add: nth_append)
    have i0: "0 \<le> unat (th_tabsize ?h0)" by simp
    from grow_buckets_correct [OF R0 D0 n0 m0 B0' nle i0 E0 P0] obtain h1 cs1 where
      g: "grow_buckets ?m [0..<?n] ?h0 = Some (Inr h1)"
      and R1: "list_all2 (chain (th_next h1)) (th_entries h1) cs1"
      and L1: "length cs1 = length ?cs"
      and M1: "mset (concat cs1) = mset (concat ?cs)"
      and f1: "th_count h1 = th_count ?h0" "th_hashval h1 = th_hashval ?h0"
      and P1: "\<forall>b<length ?cs. set (cs1 ! b) \<subseteq> set (bs ! (b mod unat (th_tabsize ?h0)))"
      by auto
    from g grow have g': "typesafe_hash_grow h = Some (Inr (h1\<lparr>th_tabsize := ?m\<rparr>))" by simp
    from R1 have "length (th_entries h1) = length cs1" by (rule list_all2_lengthD)
    with R1 L1 L0 um have wf1: "thash_is (h1\<lparr>th_tabsize := ?m\<rparr>) cs1"
      by (simp add: thash_is_def)
    from False lbs have bsne: "bs \<noteq> []" by auto
    from P1 L1 lbs bsne
    have P1': "\<forall>b<length cs1. set (cs1 ! b) \<subseteq> (if bs = [] then {} else set (bs ! (b mod length bs)))"
      by simp
    from M1 have M1': "mset (concat cs1) = mset (concat bs)" by simp
    from g' wf1 um hi le2 f1 M1' P1' show ?thesis
      by (intro exI [of _ "h1\<lparr>th_tabsize := ?m\<rparr>"] exI [of _ cs1] exI [of _ k]) simp
  qed
qed

theorem thash_grow_size_and_buckets_witness:
  "thash_is ex_thash_full [[4, 8], [1], [], []] \<and>
   distinct (concat [[4, 8], [1], [], [] :: item list]) \<and>
   th_maxsize ex_thash_full = 0 \<and>
   th_tabsize ex_thash_full \<le> th_count ex_thash_full \<and>
   th_count ex_thash_full \<noteq> 0 \<and> unat (th_count ex_thash_full) < 2 ^ 31 \<and>
   (\<exists>h' bs' k. typesafe_hash_grow ex_thash_full = Some (Inr h') \<and> thash_is h' bs' \<and>
      unat (th_tabsize h') = 2 ^ k \<and>
      unat (th_count ex_thash_full) < 2 ^ k \<and> 2 ^ k \<le> 2 * unat (th_count ex_thash_full) \<and>
      th_count h' = th_count ex_thash_full \<and> th_hashval h' = th_hashval ex_thash_full \<and>
      mset (concat bs') = mset (concat [[4, 8], [1], [], []]) \<and>
      (\<forall>b<length bs'. set (bs' ! b) \<subseteq>
         (if [[4, 8], [1], [], [] :: item list] = [] then {}
          else set ([[4, 8], [1], [], []] ! (b mod length [[4, 8], [1], [], [] :: item list])))))"
proof -
  have 1: "thash_is ex_thash_full [[4, 8], [1], [], []]"
    by (simp add: thash_is_def ex_thash_full_def)
  have 2: "distinct (concat [[4, 8], [1], [], [] :: item list])" by simp
  have 3: "th_maxsize ex_thash_full = 0" by (simp add: ex_thash_full_def)
  have 4: "th_tabsize ex_thash_full \<le> th_count ex_thash_full" by (simp add: ex_thash_full_def)
  have 5: "th_count ex_thash_full \<noteq> 0" by (simp add: ex_thash_full_def)
  have 6: "unat (th_count ex_thash_full) < 2 ^ 31" by (simp add: ex_thash_full_def)
  note t = thash_grow_size_and_buckets [OF 1 2 3 4 5 6]
  from 1 2 3 4 5 6 t show ?thesis by (intro conjI)
qed

text \<open>
  Claim C5 as stated fails on the table \<open>ex_thash_full\<close> (size 4, \<open>count\<close> incremented to
  4, bucket 0 holding the chain 4, 8, each element hashing to itself). The growth gives size
  8, while the next power of two greater than or equal to the count is 4. Element 8, whose
  hash masked by the new size is still 0, does not stay in bucket 0: it remains linked
  behind element 4, which moves to bucket 4. And \<open>find\<close> of element 8, which returned the
  element before the growth, returns null after it.
\<close>

theorem thash_grow_counterexample:
  "th_tabsize ex_thash_full = 4 \<and> th_count ex_thash_full = 4 \<and>
   th_entries ex_thash_full = [Some 4, Some 1, None, None] \<and>
   th_next ex_thash_full 4 = Some 8 \<and>
   thash_find id_cmp id_hash ex_thash_full 8 = Some (Inr (Some 8)) \<and>
   map_option (map_sum id
      (\<lambda>h. (th_tabsize h, th_count h, th_entries h, th_next h 4,
             th_hashval h 8 AND (th_tabsize h - 1), thash_find id_cmp id_hash h 8)))
     (typesafe_hash_grow ex_thash_full)
   = Some (Inr (8, 4, [None, Some 1, None, None, Some 4, None, None, None], Some 8,
                0, Some (Inr None)))"
  by (simp add: th_eval ex_thash_full_def)

end
